theory Spec2Isabelle
  imports Main
begin

section \<open>Tasks, errors and the observable trace\<close>

text \<open>
  The queue of \<^verbatim>\<open>aurelia-task-queue.js\<close> stores opaque callables. What a callable can do
  to the queue is: call \<^verbatim>\<open>queueMicroTask\<close>, call \<^verbatim>\<open>queueTask\<close>, or throw. A task is
  therefore an identifier, the sequence of such actions its \<^verbatim>\<open>call()\<close> performs, and
  the actions of its optional \<^verbatim>\<open>onError\<close> method.
\<close>

datatype error = TypeError | RangeError | UserError nat

datatype action = QueueMicroTask task | QueueTask task | Throw error
and task = Task (ident: nat) (body: "action list") (onErrorHandler: "action list option")

datatype tier = Micro | Macro

text \<open>
  The trace records, in program order, every entry into \<^verbatim>\<open>queueMicroTask\<close>/\<^verbatim>\<open>queueTask\<close>,
  every call of a tier's \<^verbatim>\<open>requestFlush\<close>, every entry into a drain, every \<^verbatim>\<open>task.call()\<close>
  and every \<^verbatim>\<open>task.onError(error)\<close>.
\<close>

datatype event =
    Enqueued tier task
  | RequestFlush tier
  | FlushStarted tier
  | Called task
  | OnErrorCalled task error

section \<open>The host: timers and the immediate queue\<close>

text \<open>
  A scheduled callback is either the closure \<^verbatim>\<open>handleFlushTimer\<close> (with the two handles
  it captured) or the closure \<^verbatim>\<open>() => { throw error; }\<close> of \<^verbatim>\<open>onError\<close>.
\<close>

datatype callback = HandleFlushTimer nat nat | Rethrow error

datatype timerKind = OneShot | Repeating

datatype timer = Timer (handle: nat) (kind: timerKind) (delay: nat) (callback: callback)

text \<open>
  The state: the three fields of the \<^verbatim>\<open>TaskQueue\<close> object, the closure state of the
  mutation-observer \<^verbatim>\<open>requestFlush\<close> (\<open>toggle\<close> and the data of the observed node), the
  host's capability flag, its scheduled callbacks and the next timer handle it will hand
  out, and the trace. A slot of the micro queue is an option because the shift loop of the
  micro drain can store \<^verbatim>\<open>undefined\<close> (\<open>None\<close>) in the array; the macro queue only ever
  receives pushed tasks.
\<close>

record world =
  microTaskQueue :: "task option list"
  microTaskQueueCapacity :: nat
  taskQueue :: "task list"
  toggle :: int
  nodeData :: "int option"
  hasSetImmediate :: bool
  immediates :: "callback list"
  timers :: "timer list"
  nextHandle :: nat
  trace :: "event list"

text \<open>The constructor; \<^verbatim>\<open>hasSetImmediate\<close> is the host capability probed at load time.\<close>

definition newTaskQueue :: "bool \<Rightarrow> world" where
  "newTaskQueue hsi =
     \<lparr> microTaskQueue = [], microTaskQueueCapacity = 1024, taskQueue = [],
       toggle = 1, nodeData = None, hasSetImmediate = hsi, immediates = [],
       timers = [], nextHandle = 1, trace = [] \<rparr>"

definition setTimeout :: "callback \<Rightarrow> nat \<Rightarrow> world \<Rightarrow> nat \<times> world" where
  "setTimeout cb d w =
     (nextHandle w,
      w\<lparr>timers := timers w @ [Timer (nextHandle w) OneShot d cb],
        nextHandle := nextHandle w + 1\<rparr>)"

definition setInterval :: "callback \<Rightarrow> nat \<Rightarrow> world \<Rightarrow> nat \<times> world" where
  "setInterval cb d w =
     (nextHandle w,
      w\<lparr>timers := timers w @ [Timer (nextHandle w) Repeating d cb],
        nextHandle := nextHandle w + 1\<rparr>)"

definition setImmediate :: "callback \<Rightarrow> world \<Rightarrow> world" where
  "setImmediate cb w = w\<lparr>immediates := immediates w @ [cb]\<rparr>"

text \<open>Cancelling a handle that is not active is a no-op, as in the host.\<close>

definition clearTimeout :: "nat \<Rightarrow> world \<Rightarrow> world" where
  "clearTimeout h w = w\<lparr>timers := filter (\<lambda>t. handle t \<noteq> h) (timers w)\<rparr>"

definition clearInterval :: "nat \<Rightarrow> world \<Rightarrow> world" where
  "clearInterval h w = w\<lparr>timers := filter (\<lambda>t. handle t \<noteq> h) (timers w)\<rparr>"

section \<open>Flush requests\<close>

text \<open>\<^verbatim>\<open>makeRequestFlushFromMutationObserver\<close>: flip the toggle and store it in the node.\<close>

definition requestFlushMicroTaskQueue :: "world \<Rightarrow> world" where
  "requestFlushMicroTaskQueue w =
     (let w0 = w\<lparr>trace := trace w @ [RequestFlush Micro]\<rparr>;
          w1 = w0\<lparr>toggle := - toggle w0\<rparr>
      in w1\<lparr>nodeData := Some (toggle w1)\<rparr>)"

text \<open>
  \<^verbatim>\<open>makeRequestFlushFromTimer\<close>: a zero-delay timeout and a 50ms interval, both running
  \<^verbatim>\<open>handleFlushTimer\<close>. The closure reads \<^verbatim>\<open>timeoutHandle\<close> and \<^verbatim>\<open>intervalHandle\<close> when
  it runs, after both were assigned; the handles the host will hand out are the next
  two, so the closure is built with them.
\<close>

definition requestFlushTaskQueue :: "world \<Rightarrow> world" where
  "requestFlushTaskQueue w =
     (let w0 = w\<lparr>trace := trace w @ [RequestFlush Macro]\<rparr>;
          handleFlushTimer = HandleFlushTimer (nextHandle w0) (nextHandle w0 + 1);
          (timeoutHandle, w1) = setTimeout handleFlushTimer 0 w0;
          (intervalHandle, w2) = setInterval handleFlushTimer 50 w1
      in w2)"

section \<open>Enqueueing\<close>

definition queueMicroTask :: "task \<Rightarrow> world \<Rightarrow> world" where
  "queueMicroTask task w =
     (let w0 = w\<lparr>trace := trace w @ [Enqueued Micro task]\<rparr>;
          w1 = (if length (microTaskQueue w0) < 1 then requestFlushMicroTaskQueue w0 else w0)
      in w1\<lparr>microTaskQueue := microTaskQueue w1 @ [Some task]\<rparr>)"

definition queueTask :: "task \<Rightarrow> world \<Rightarrow> world" where
  "queueTask task w =
     (let w0 = w\<lparr>trace := trace w @ [Enqueued Macro task]\<rparr>;
          w1 = (if length (taskQueue w0) < 1 then requestFlushTaskQueue w0 else w0)
      in w1\<lparr>taskQueue := taskQueue w1 @ [task]\<rparr>)"

section \<open>Running a task\<close>

text \<open>
  The result of running code that may throw: the exception, if any, and the world it
  left behind.
\<close>

fun run :: "action list \<Rightarrow> world \<Rightarrow> error option \<times> world" where
  "run [] w = (None, w)"
| "run (QueueMicroTask t # as) w = run as (queueMicroTask t w)"
| "run (QueueTask t # as) w = run as (queueTask t w)"
| "run (Throw e # as) w = (Some e, w)"

definition call :: "task \<Rightarrow> world \<Rightarrow> error option \<times> world" where
  "call task w = run (body task) (w\<lparr>trace := trace w @ [Called task]\<rparr>)"

section \<open>Error sink\<close>

text \<open>
  \<^verbatim>\<open>'onError' in task\<close> throws a TypeError when \<^verbatim>\<open>task\<close> is \<^verbatim>\<open>undefined\<close>. An exception
  of the task's handler leaves \<^verbatim>\<open>onError\<close>.
\<close>

definition onError :: "error \<Rightarrow> task option \<Rightarrow> world \<Rightarrow> error option \<times> world" where
  "onError error task w =
     (case task of
        None \<Rightarrow> (Some TypeError, w)
      | Some t \<Rightarrow>
          (case onErrorHandler t of
             Some h \<Rightarrow> run h (w\<lparr>trace := trace w @ [OnErrorCalled t error]\<rparr>)
           | None \<Rightarrow>
               if hasSetImmediate w then (None, setImmediate (Rethrow error) w)
               else (None, snd (setTimeout (Rethrow error) 0 w))))"

section \<open>The macro drain\<close>

datatype outcome = Completed world | Caught error "task option" world

function macroLoop :: "task list \<Rightarrow> nat \<Rightarrow> world \<Rightarrow> outcome" where
  "macroLoop queue index w =
     (if index < length queue then
        (let task = queue ! index in
         case call task w of
           (Some error, w') \<Rightarrow> Caught error (Some task) w'
         | (None, w') \<Rightarrow> macroLoop queue (index + 1) w')
      else Completed w)"
  by pat_completeness auto
termination
  by (relation "measure (\<lambda>(queue, index, w). length queue - index)") auto

declare macroLoop.simps [simp del]

definition flushTaskQueue :: "world \<Rightarrow> error option \<times> world" where
  "flushTaskQueue w =
     (let w0 = w\<lparr>trace := trace w @ [FlushStarted Macro]\<rparr>;
          queue = taskQueue w0;
          w1 = w0\<lparr>taskQueue := []\<rparr>
      in case macroLoop queue 0 w1 of
           Completed w2 \<Rightarrow> (None, w2)
         | Caught error task w2 \<Rightarrow> onError error task w2)"

section \<open>The micro drain\<close>

text \<open>
  JavaScript array access: a read past the end yields \<^verbatim>\<open>undefined\<close> (\<open>None\<close>), a write
  past the end extends the array with holes.
\<close>

definition jsRead :: "'a option list \<Rightarrow> nat \<Rightarrow> 'a option" where
  "jsRead xs i = (if i < length xs then xs ! i else None)"

definition jsWrite :: "'a option list \<Rightarrow> nat \<Rightarrow> 'a option \<Rightarrow> 'a option list" where
  "jsWrite xs i v =
     (if i < length xs then xs[i := v] else xs @ replicate (i - length xs) None @ [v])"

text \<open>The inner \<^verbatim>\<open>for (let scan = 0; scan < index; scan++)\<close> loop.\<close>

function shiftLoop :: "nat \<Rightarrow> nat \<Rightarrow> task option list \<Rightarrow> task option list" where
  "shiftLoop scan index queue =
     (if scan < index
      then shiftLoop (scan + 1) index (jsWrite queue scan (jsRead queue (scan + index)))
      else queue)"
  by pat_completeness auto
termination
  by (relation "measure (\<lambda>(scan, index, queue). index - scan)") auto

declare shiftLoop.simps [simp del]

text \<open>
  The while loop of \<^verbatim>\<open>flushMicroTaskQueue\<close>. The queue is the array held by the object,
  so every push of a running task is seen by the next test of \<^verbatim>\<open>index < queue.length\<close>.
  \<^verbatim>\<open>queue.length -= index\<close> raises a RangeError for a negative length; like every
  exception of the loop body it is caught by the drain. The loop need not end, so it
  returns an option: \<open>None\<close> is a drain that never returns.
\<close>

partial_function (option) microLoop :: "nat \<Rightarrow> nat \<Rightarrow> world \<Rightarrow> outcome option" where
  "microLoop capacity index w =
     (if index < length (microTaskQueue w) then
        (case microTaskQueue w ! index of
           None \<Rightarrow> Some (Caught TypeError None w)
         | Some task \<Rightarrow>
             (case call task w of
                (Some error, w') \<Rightarrow> Some (Caught error (Some task) w')
              | (None, w') \<Rightarrow>
                  if index + 1 > capacity then
                    (let shifted = shiftLoop 0 (index + 1) (microTaskQueue w') in
                     if length shifted < index + 1
                     then Some (Caught RangeError (Some task) (w'\<lparr>microTaskQueue := shifted\<rparr>))
                     else microLoop capacity 0
                            (w'\<lparr>microTaskQueue := take (length shifted - (index + 1)) shifted\<rparr>))
                  else microLoop capacity (index + 1) w'))
      else Some (Completed w))"

definition flushMicroTaskQueue :: "world \<Rightarrow> (error option \<times> world) option" where
  "flushMicroTaskQueue w =
     (let w0 = w\<lparr>trace := trace w @ [FlushStarted Micro]\<rparr>;
          capacity = microTaskQueueCapacity w0
      in case microLoop capacity 0 w0 of
           None \<Rightarrow> None
         | Some (Completed w1) \<Rightarrow> Some (None, w1\<lparr>microTaskQueue := []\<rparr>)
         | Some (Caught error task w1) \<Rightarrow>
             (case onError error task w1 of
                (Some error', w2) \<Rightarrow> Some (Some error', w2)
              | (None, w2) \<Rightarrow> Some (None, w2\<lparr>microTaskQueue := []\<rparr>)))"

section \<open>The host firing timers\<close>

definition runCallback :: "callback \<Rightarrow> world \<Rightarrow> error option \<times> world" where
  "runCallback cb w =
     (case cb of
        HandleFlushTimer timeoutHandle intervalHandle \<Rightarrow>
          flushTaskQueue (clearInterval intervalHandle (clearTimeout timeoutHandle w))
      | Rethrow error \<Rightarrow> (Some error, w))"

text \<open>
  The host fires only active timers (\<open>None\<close> otherwise); a one-shot timer is removed
  before its callback runs, a repeating one stays.
\<close>

definition fireTimer :: "nat \<Rightarrow> world \<Rightarrow> (error option \<times> world) option" where
  "fireTimer h w =
     (case find (\<lambda>t. handle t = h) (timers w) of
        None \<Rightarrow> None
      | Some t \<Rightarrow>
          Some (runCallback (callback t)
                  (if kind t = OneShot
                   then w\<lparr>timers := filter (\<lambda>x. handle x \<noteq> h) (timers w)\<rparr>
                   else w)))"

text \<open>
  A schedule of the host: the handles it tries to fire, in order. A handle that is no
  longer active is skipped; an exception of a callback is the host's to report.
\<close>

fun fireAll :: "nat list \<Rightarrow> world \<Rightarrow> world" where
  "fireAll [] w = w"
| "fireAll (h # hs) w =
     (case fireTimer h w of None \<Rightarrow> fireAll hs w | Some (r, w') \<Rightarrow> fireAll hs w')"

section \<open>Reading the trace\<close>

text \<open>The tasks invoked in a stretch of the trace, in order.\<close>

fun invoked :: "event list \<Rightarrow> task list" where
  "invoked [] = []"
| "invoked (Called t # es) = t # invoked es"
| "invoked (e # es) = invoked es"

text \<open>The tasks handed to a tier's enqueue operation in a stretch of the trace.\<close>

fun enqueued :: "tier \<Rightarrow> event list \<Rightarrow> task list" where
  "enqueued tr [] = []"
| "enqueued tr (Enqueued tr' t # es) = (if tr = tr' then t # enqueued tr es else enqueued tr es)"
| "enqueued tr (e # es) = enqueued tr es"

text \<open>The events an enqueue operation can add.\<close>

fun enqueueEvent :: "event \<Rightarrow> bool" where
  "enqueueEvent (Enqueued tr t) = True"
| "enqueueEvent (RequestFlush tr) = True"
| "enqueueEvent e = False"

text \<open>The world an outcome of a loop carries.\<close>

fun outcomeWorld :: "outcome \<Rightarrow> world" where
  "outcomeWorld (Completed w) = w"
| "outcomeWorld (Caught e t w) = w"

section \<open>Vocabulary of the statements\<close>

text \<open>
  A body is straight-line code, so it throws exactly when it contains a \<open>Throw\<close>.
\<close>

fun isThrow :: "action \<Rightarrow> bool" where
  "isThrow (Throw e) = True"
| "isThrow a = False"

definition throws :: "task \<Rightarrow> bool" where
  "throws t = list_ex isThrow (body t)"

text \<open>The tasks of a queue up to and including the first one that throws.\<close>

definition upToThrow :: "task list \<Rightarrow> task list" where
  "upToThrow ts = take (Suc (length (takeWhile (\<lambda>t. \<not> throws t) ts))) ts"

text \<open>
  What \<^verbatim>\<open>queue.length -= index\<close> leaves of a hole-free queue after the shift loop has
  run with \<^verbatim>\<open>index\<close>, as a function of the tasks that were in it.
\<close>

definition compacted :: "nat \<Rightarrow> 'a list \<Rightarrow> 'a list" where
  "compacted index ts = take (length ts - index) (take index (drop index ts) @ drop index ts)"

text \<open>
  Handle \<open>h\<close> has been handed out and is no longer active, and the macro drain has been
  entered \<open>n\<close> times so far.
\<close>

definition spent :: "nat \<Rightarrow> nat \<Rightarrow> world \<Rightarrow> bool" where
  "spent h n w \<longleftrightarrow>
     h < nextHandle w \<and> find (\<lambda>t. handle t = h) (timers w) = None \<and>
     count_list (trace w) (FlushStarted Macro) = n"

section \<open>Tasks used at concrete inputs\<close>

text \<open>A task that does nothing.\<close>

definition noop :: "nat \<Rightarrow> task" where
  "noop n = Task n [] None"

text \<open>A task whose body enqueues one micro task and does nothing else.\<close>

definition spawner :: "nat \<Rightarrow> task \<Rightarrow> task" where
  "spawner n t = Task n [QueueMicroTask t] None"

text \<open>A task whose body enqueues the given macro tasks, in order.\<close>

definition macroSpawner :: "nat \<Rightarrow> task list \<Rightarrow> task" where
  "macroSpawner n ts = Task n (map QueueTask ts) None"

text \<open>A task without error handler whose body throws.\<close>

definition thrower :: "nat \<Rightarrow> error \<Rightarrow> task" where
  "thrower n e = Task n [Throw e] None"

text \<open>A task whose body throws \<open>e\<close> and whose error handler throws \<open>e'\<close>.\<close>

definition rethrower :: "nat \<Rightarrow> error \<Rightarrow> error \<Rightarrow> task" where
  "rethrower n e e' = Task n [Throw e] (Some [Throw e'])"



section \<open>Enqueueing: effect on each field\<close>

lemma queueMicroTask_fields [simp]:
  "microTaskQueue (queueMicroTask t w) = microTaskQueue w @ [Some t]"
  "taskQueue (queueMicroTask t w) = taskQueue w"
  "microTaskQueueCapacity (queueMicroTask t w) = microTaskQueueCapacity w"
  "hasSetImmediate (queueMicroTask t w) = hasSetImmediate w"
  "immediates (queueMicroTask t w) = immediates w"
  "timers (queueMicroTask t w) = timers w"
  "nextHandle (queueMicroTask t w) = nextHandle w"
  "trace (queueMicroTask t w) =
     trace w @ Enqueued Micro t # (if microTaskQueue w = [] then [RequestFlush Micro] else [])"
  by (simp_all add: queueMicroTask_def requestFlushMicroTaskQueue_def Let_def)

lemma queueTask_fields [simp]:
  "microTaskQueue (queueTask t w) = microTaskQueue w"
  "taskQueue (queueTask t w) = taskQueue w @ [t]"
  "microTaskQueueCapacity (queueTask t w) = microTaskQueueCapacity w"
  "hasSetImmediate (queueTask t w) = hasSetImmediate w"
  "immediates (queueTask t w) = immediates w"
  "timers (queueTask t w) =
     timers w @ (if taskQueue w = []
                 then [Timer (nextHandle w) OneShot 0
                         (HandleFlushTimer (nextHandle w) (nextHandle w + 1)),
                       Timer (nextHandle w + 1) Repeating 50
                         (HandleFlushTimer (nextHandle w) (nextHandle w + 1))]
                 else [])"
  "nextHandle (queueTask t w) = nextHandle w + (if taskQueue w = [] then 2 else 0)"
  "trace (queueTask t w) =
     trace w @ Enqueued Macro t # (if taskQueue w = [] then [RequestFlush Macro] else [])"
  by (simp_all add: queueTask_def requestFlushTaskQueue_def setTimeout_def setInterval_def Let_def)



section \<open>The shift loop in closed form\<close>

lemma length_jsWrite: "length q \<le> length (jsWrite q i v)"
  by (simp add: jsWrite_def)

lemma length_shiftLoop: "length q \<le> length (shiftLoop scan index q)"
proof (induction scan index q rule: shiftLoop.induct)
  case (1 scan index queue)
  show ?case
  proof (cases "scan < index")
    case True
    have "length queue \<le> length (jsWrite queue scan (jsRead queue (scan + index)))"
      by (rule length_jsWrite)
    also have "\<dots> \<le> length (shiftLoop (scan + 1) index (jsWrite queue scan (jsRead queue (scan + index))))"
      using "1.IH" True by simp
    finally show ?thesis using True by (subst shiftLoop.simps) simp
  next
    case False
    then show ?thesis by (subst shiftLoop.simps) simp
  qed
qed

lemma shiftLoop_closed:
  "scan \<le> index \<Longrightarrow> index \<le> length q \<Longrightarrow>
   shiftLoop scan index q =
     take scan q @ map (\<lambda>s. jsRead q (s + index)) [scan..<index] @ drop index q"
proof (induction "index - scan" arbitrary: scan q)
  case 0
  then have "scan = index" by simp
  then show ?case by (subst shiftLoop.simps) simp
next
  case (Suc n)
  then have lt: "scan < index" and n: "n = index - (scan + 1)" by simp_all
  let ?q = "jsWrite q scan (jsRead q (scan + index))"
  have q': "?q = q[scan := jsRead q (scan + index)]"
    using lt Suc.prems by (simp add: jsWrite_def)
  have len: "length ?q = length q" by (simp add: q')
  have rd: "jsRead ?q (s + index) = jsRead q (s + index)" for s
    unfolding q' using lt by (simp add: jsRead_def)
  have "shiftLoop scan index q = shiftLoop (scan + 1) index ?q"
    using lt by (subst shiftLoop.simps) simp
  also have "\<dots> = take (scan + 1) ?q @ map (\<lambda>s. jsRead ?q (s + index)) [scan + 1..<index] @ drop index ?q"
    using Suc.hyps(1)[OF n] lt Suc.prems len by simp
  also have "take (scan + 1) ?q = take scan q @ [jsRead q (scan + index)]"
    using lt Suc.prems by (simp add: q' take_Suc_conv_app_nth)
  also have "drop index ?q = drop index q"
    using lt by (simp add: q')
  finally show ?case
    using lt by (simp add: rd upt_conv_Cons)
qed

lemma reads_in_range:
  "n \<le> length ts - index \<Longrightarrow>
   map (\<lambda>s. jsRead (map Some ts) (s + index)) [0..<n] = map Some (take n (drop index ts))"
  by (rule nth_equalityI) (auto simp add: jsRead_def add.commute)

lemma compaction_closed:
  assumes "index \<le> length ts"
  shows "take (length (shiftLoop 0 index (map Some ts)) - index) (shiftLoop 0 index (map Some ts))
         = map Some (take (length ts - index) (take index (drop index ts) @ drop index ts))"
proof -
  let ?q = "map Some ts"
  let ?r = "map (\<lambda>s. jsRead ?q (s + index)) [0..<index]"
  have sh: "shiftLoop 0 index ?q = ?r @ map Some (drop index ts)"
    using assms by (subst shiftLoop_closed) (simp_all add: drop_map)
  have len: "length (shiftLoop 0 index ?q) = length ts"
    using assms by (simp add: sh)
  show ?thesis
  proof (cases "length ts - index \<le> index")
    case True
    have "take (length ts - index) ?r
          = map (\<lambda>s. jsRead ?q (s + index)) [0..<length ts - index]"
      using True by (simp only: take_map take_upt add_0 min_def) 
    also have "\<dots> = map Some (take (length ts - index) (drop index ts))"
      by (rule reads_in_range) simp
    finally have "take (length ts - index) ?r = map Some (drop index ts)" by simp
    then show ?thesis unfolding sh len using True by simp
  next
    case False
    have "?r = map Some (take index (drop index ts))"
      using False by (intro reads_in_range) simp
    then show ?thesis unfolding sh len using False by (simp add: take_map)
  qed
qed

section \<open>Steps of the micro loop\<close>

lemma invoked_append [simp]: "invoked (xs @ ys) = invoked xs @ invoked ys"
  by (induction xs rule: invoked.induct) simp_all

lemma call_inert:
  "body t = [] \<Longrightarrow> call t w = (None, w\<lparr>trace := trace w @ [Called t]\<rparr>)"
  by (simp add: call_def)

lemma microLoop_done:
  "\<not> index < length (microTaskQueue w) \<Longrightarrow> microLoop c index w = Some (Completed w)"
  by (subst microLoop.simps) simp

lemma microLoop_throw:
  "index < length (microTaskQueue w) \<Longrightarrow> microTaskQueue w ! index = Some t \<Longrightarrow>
   call t w = (Some e, w') \<Longrightarrow> microLoop c index w = Some (Caught e (Some t) w')"
  by (subst microLoop.simps) simp

lemma microLoop_next:
  "index < length (microTaskQueue w) \<Longrightarrow> microTaskQueue w ! index = Some t \<Longrightarrow>
   call t w = (None, w') \<Longrightarrow> index + 1 \<le> c \<Longrightarrow>
   microLoop c index w = microLoop c (index + 1) w'"
  by (subst microLoop.simps) simp

lemma microLoop_compact:
  "index < length (microTaskQueue w) \<Longrightarrow> microTaskQueue w ! index = Some t \<Longrightarrow>
   call t w = (None, w') \<Longrightarrow> c < index + 1 \<Longrightarrow>
   index + 1 \<le> length (microTaskQueue w') \<Longrightarrow>
   microLoop c index w =
     microLoop c 0
       (w'\<lparr>microTaskQueue :=
             take (length (shiftLoop 0 (index + 1) (microTaskQueue w')) - (index + 1))
               (shiftLoop 0 (index + 1) (microTaskQueue w'))\<rparr>)"
  using length_shiftLoop [of "microTaskQueue w'" 0 "index + 1"]
  by (subst microLoop.simps) (simp add: Let_def)

lemma inert_segment:
  assumes "microTaskQueue w = map Some ts"
    and "\<forall>t \<in> set (take k (drop i ts)). body t = []"
    and "i + k \<le> length ts" and "i + k \<le> c"
  shows "microLoop c i w =
         microLoop c (i + k) (w\<lparr>trace := trace w @ map Called (take k (drop i ts))\<rparr>)"
  using assms
proof (induction k arbitrary: i w)
  case 0
  then show ?case by simp
next
  case (Suc k)
  have i: "i < length ts" using Suc.prems by simp
  have hd: "take (Suc k) (drop i ts) = ts ! i # take k (drop (Suc i) ts)"
    using i by (simp add: take_Suc_conv_app_nth Cons_nth_drop_Suc [symmetric])
  have inert: "body (ts ! i) = []" using Suc.prems(2) hd by simp
  let ?w = "w\<lparr>trace := trace w @ [Called (ts ! i)]\<rparr>"
  have "microLoop c i w = microLoop c (i + 1) ?w"
    using i Suc.prems by (intro microLoop_next [where t = "ts ! i"]) (simp_all add: call_inert inert)
  moreover have "microLoop c (Suc i) ?w =
      microLoop c (Suc i + k) (?w\<lparr>trace := trace ?w @ map Called (take k (drop (Suc i) ts))\<rparr>)"
    by (rule Suc.IH) (use Suc.prems hd in simp_all)
  ultimately show ?case by (simp add: hd)
qed

lemma inert_compact:
  assumes "microTaskQueue w = map Some ts" and "i < length ts" and "body (ts ! i) = []"
    and "c \<le> i"
  shows "microLoop c i w =
         microLoop c 0 (w\<lparr>trace := trace w @ [Called (ts ! i)],
                          microTaskQueue := map Some (compacted (i + 1) ts)\<rparr>)"
proof -
  let ?w = "w\<lparr>trace := trace w @ [Called (ts ! i)]\<rparr>"
  have "microLoop c i w =
     microLoop c 0
       (?w\<lparr>microTaskQueue :=
             take (length (shiftLoop 0 (i + 1) (microTaskQueue ?w)) - (i + 1))
               (shiftLoop 0 (i + 1) (microTaskQueue ?w))\<rparr>)"
    using assms by (intro microLoop_compact [where t = "ts ! i"]) (simp_all add: call_inert)
  also have "take (length (shiftLoop 0 (i + 1) (microTaskQueue ?w)) - (i + 1))
               (shiftLoop 0 (i + 1) (microTaskQueue ?w)) = map Some (compacted (i + 1) ts)"
    using assms compaction_closed [of "i + 1" ts] by (simp add: compacted_def)
  finally show ?thesis
    by simp
qed

lemma inert_block:
  assumes "microTaskQueue w = map Some ts" and "c < length ts"
    and "\<forall>t \<in> set (take (c + 1) ts). body t = []"
  shows "microLoop c 0 w =
         microLoop c 0 (w\<lparr>trace := trace w @ map Called (take (c + 1) ts),
                          microTaskQueue := map Some (compacted (c + 1) ts)\<rparr>)"
proof -
  let ?w = "w\<lparr>trace := trace w @ map Called (take c ts)\<rparr>"
  have sub: "set (take c ts) \<subseteq> set (take (c + 1) ts)"
    by (rule set_take_subset_set_take) simp
  have "microLoop c 0 w = microLoop c (0 + c) (w\<lparr>trace := trace w @ map Called (take c (drop 0 ts))\<rparr>)"
    using assms sub by (intro inert_segment) auto
  also have "\<dots> = microLoop c c ?w" by simp
  also have "\<dots> = microLoop c 0 (?w\<lparr>trace := trace ?w @ [Called (ts ! c)],
                          microTaskQueue := map Some (compacted (c + 1) ts)\<rparr>)"
    using assms by (intro inert_compact) (simp_all add: take_Suc_conv_app_nth)
  finally show ?thesis using assms by (simp add: take_Suc_conv_app_nth)
qed

lemma inert_final:
  assumes "microTaskQueue w = map Some ts" and "length ts \<le> c"
    and "\<forall>t \<in> set ts. body t = []"
  shows "microLoop c 0 w = Some (Completed (w\<lparr>trace := trace w @ map Called ts\<rparr>))"
proof -
  have "microLoop c 0 w = microLoop c (0 + length ts) (w\<lparr>trace := trace w @ map Called (take (length ts) (drop 0 ts))\<rparr>)"
    using assms by (intro inert_segment) auto
  also have "\<dots> = Some (Completed (w\<lparr>trace := trace w @ map Called ts\<rparr>))"
    using assms by (subst microLoop_done) simp_all
  finally show ?thesis .
qed

lemma inert_block_from:
  assumes "microTaskQueue w = map Some ts" and "c < length ts" and "i \<le> c"
    and "\<forall>t \<in> set (take (c + 1 - i) (drop i ts)). body t = []"
  shows "microLoop c i w =
         microLoop c 0 (w\<lparr>trace := trace w @ map Called (take (c + 1 - i) (drop i ts)),
                          microTaskQueue := map Some (compacted (c + 1) ts)\<rparr>)"
proof -
  let ?w = "w\<lparr>trace := trace w @ map Called (take (c - i) (drop i ts))\<rparr>"
  have split: "take (c + 1 - i) (drop i ts) = take (c - i) (drop i ts) @ [ts ! c]"
    using assms(2,3) by (simp add: Suc_diff_le take_Suc_conv_app_nth)
  have "microLoop c i w = microLoop c (i + (c - i)) ?w"
    using assms split by (intro inert_segment) auto
  also have "\<dots> = microLoop c c ?w" using assms(3) by simp
  also have "\<dots> = microLoop c 0 (?w\<lparr>trace := trace ?w @ [Called (ts ! c)],
                          microTaskQueue := map Some (compacted (c + 1) ts)\<rparr>)"
    using assms split by (intro inert_compact) simp_all
  finally show ?thesis using split by simp
qed

lemma compacted_overfull:
  assumes "length A = n" and "length B = n" and "length C \<le> n"
  shows "compacted n (A @ B @ C) = B @ take (length C) B"
  using assms by (simp add: compacted_def)

lemma compacted_tail:
  assumes "length B = n" and "length D \<le> n"
  shows "compacted n (B @ D) = D"
  using assms by (simp add: compacted_def)

lemma inert_overfull:
  assumes q: "microTaskQueue w = map Some (A @ B @ C)"
    and A: "length A = c + 1" and B: "length B = c + 1" and C: "length C \<le> c"
    and i: "i \<le> c"
    and inert: "\<forall>t \<in> set (drop i A) \<union> set B. body t = []"
  shows "microLoop c i w =
         Some (Completed (w\<lparr>trace := trace w @ map Called (drop i A @ B @ take (length C) B),
                            microTaskQueue := map Some (take (length C) B)\<rparr>))"
proof -
  let ?D = "take (length C) B"
  let ?w1 = "w\<lparr>trace := trace w @ map Called (drop i A),
                microTaskQueue := map Some (B @ ?D)\<rparr>"
  let ?w2 = "?w1\<lparr>trace := trace ?w1 @ map Called B, microTaskQueue := map Some ?D\<rparr>"
  have "microLoop c i w = microLoop c 0 (w\<lparr>trace := trace w @ map Called (take (c + 1 - i) (drop i (A @ B @ C))),
                          microTaskQueue := map Some (compacted (c + 1) (A @ B @ C))\<rparr>)"
    using q A i inert by (intro inert_block_from) auto
  also have "\<dots> = microLoop c 0 ?w1"
    using A B C i by (simp add: compacted_overfull)
  also have "\<dots> = microLoop c 0 (?w1\<lparr>trace := trace ?w1 @ map Called (take (c + 1 - 0) (drop 0 (B @ ?D))),
                          microTaskQueue := map Some (compacted (c + 1) (B @ ?D))\<rparr>)"
    using B inert by (intro inert_block_from) auto
  also have "\<dots> = microLoop c 0 ?w2"
    using B C by (simp add: compacted_tail)
  also have "\<dots> = Some (Completed (?w2\<lparr>trace := trace ?w2 @ map Called ?D\<rparr>))"
    using C inert by (intro inert_final) (auto dest: in_set_takeD)
  finally show ?thesis by simp
qed

lemma body_noop [simp]: "body (noop n) = []"
  by (simp add: noop_def)

lemma fold_queueMicroTask_queue:
  "microTaskQueue (fold queueMicroTask ts w) = microTaskQueue w @ map Some ts \<and>
   microTaskQueueCapacity (fold queueMicroTask ts w) = microTaskQueueCapacity w \<and>
   invoked (trace (fold queueMicroTask ts w)) = invoked (trace w)"
  by (induction ts arbitrary: w) simp_all

lemma invoked_Called [simp]: "invoked (map Called ts) = ts"
  by (induction ts) simp_all

lemma invoked_Called_comp [simp]: "invoked (map (Called \<circ> f) xs) = map f xs"
  by (induction xs) simp_all

lemma upt_split3:
  "a \<le> b \<Longrightarrow> b \<le> c \<Longrightarrow> [0..<c] = [0..<a] @ [a..<b] @ [b..<c]"
proof -
  assume "a \<le> b" and "b \<le> c"
  then obtain k m where b: "b = a + k" and c: "c = b + m"
    by (auto simp add: le_iff_add)
  have "[0..<c] = [0..<b] @ [b..<c]"
    unfolding c by (rule upt_add_eq_append) simp
  also have "[0..<b] = [0..<a] @ [a..<b]"
    unfolding b by (rule upt_add_eq_append) simp
  finally show ?thesis by simp
qed

section \<open>A burst of no-op micro tasks\<close>

lemma noop_burst_drain:
  assumes lo: "2050 \<le> n" and hi: "n \<le> 3074"
  shows "map_option (\<lambda>r. (fst r, invoked (trace (snd r))))
     (flushMicroTaskQueue (fold queueMicroTask (map noop [0..<n]) (newTaskQueue hsi)))
   = Some (None, map noop ([0..<2050] @ [1025..<n - 1025]))"
proof -
  let ?W = "fold queueMicroTask (map noop [0..<n]) (newTaskQueue hsi)"
  let ?W0 = "?W\<lparr>trace := trace ?W @ [FlushStarted Micro]\<rparr>"
  let ?A = "map noop [0..<1025]" and ?B = "map noop [1025..<2050]" and ?C = "map noop [2050..<n]"
  have ts: "map noop [0..<n] = ?A @ ?B @ ?C"
    using lo by (simp only: upt_split3 [of 1025 2050 n] map_append)
  have q: "microTaskQueue ?W0 = map Some (?A @ ?B @ ?C)"
    by (simp add: fold_queueMicroTask_queue newTaskQueue_def ts del: upt_rec_numeral)
  have c: "microTaskQueueCapacity ?W0 = 1024"
    and tr: "invoked (trace ?W0) = []"
    by (simp_all add: fold_queueMicroTask_queue newTaskQueue_def del: upt_rec_numeral)
  have tk: "take (length ?C) ?B = map noop [1025..<n - 1025]"
    using lo hi by (simp add: take_map del: upt_rec_numeral)
  have loop: "microLoop 1024 0 ?W0 =
     Some (Completed (?W0\<lparr>trace := trace ?W0 @ map Called (drop 0 ?A @ ?B @ take (length ?C) ?B),
                            microTaskQueue := map Some (take (length ?C) ?B)\<rparr>))"
    using hi by (intro inert_overfull [OF q]) (auto simp del: upt_rec_numeral)
  have "[0..<1025] @ [1025..<2050] = [0..<2050]"
    using upt_split3 [of 1025 2050 2050] by simp
  then have "map noop [0..<1025] @ map noop [1025..<2050] = map noop [0..<2050]"
    by (simp only: map_append [symmetric])
  then show ?thesis
    unfolding flushMicroTaskQueue_def Let_def c loop tk using tr by (simp del: upt_rec_numeral)
qed

section \<open>What running a task does to the world\<close>

lemma enqueued_append [simp]: "enqueued tr (xs @ ys) = enqueued tr xs @ enqueued tr ys"
  by (induction tr xs rule: enqueued.induct) simp_all

lemma enqueueEvent_not_invoked: "list_all enqueueEvent es \<Longrightarrow> invoked es = []"
  by (induction es rule: invoked.induct) simp_all

lemma run_effect:
  "\<exists>es. trace (snd (run as w)) = trace w @ es \<and> list_all enqueueEvent es \<and>
        taskQueue (snd (run as w)) = taskQueue w @ enqueued Macro es \<and>
        microTaskQueue (snd (run as w)) = microTaskQueue w @ map Some (enqueued Micro es)"
proof (induction as w rule: run.induct)
  case (1 w)
  then show ?case by simp
next
  case (2 t as w)
  then obtain es where es: "trace (snd (run as (queueMicroTask t w))) = trace (queueMicroTask t w) @ es"
    "list_all enqueueEvent es"
    "taskQueue (snd (run as (queueMicroTask t w))) = taskQueue (queueMicroTask t w) @ enqueued Macro es"
    "microTaskQueue (snd (run as (queueMicroTask t w))) =
       microTaskQueue (queueMicroTask t w) @ map Some (enqueued Micro es)"
    by blast
  let ?es = "Enqueued Micro t # (if microTaskQueue w = [] then [RequestFlush Micro] else []) @ es"
  show ?case
    by (rule exI [of _ ?es]) (use es in simp)
next
  case (3 t as w)
  then obtain es where es: "trace (snd (run as (queueTask t w))) = trace (queueTask t w) @ es"
    "list_all enqueueEvent es"
    "taskQueue (snd (run as (queueTask t w))) = taskQueue (queueTask t w) @ enqueued Macro es"
    "microTaskQueue (snd (run as (queueTask t w))) =
       microTaskQueue (queueTask t w) @ map Some (enqueued Micro es)"
    by blast
  let ?es = "Enqueued Macro t # (if taskQueue w = [] then [RequestFlush Macro] else []) @ es"
  show ?case
    by (rule exI [of _ ?es]) (use es in simp)
next
  case (4 e as w)
  then show ?case by simp
qed

lemma run_result: "(fst (run as w) = None) = (\<not> list_ex isThrow as)"
  by (induction as w rule: run.induct) simp_all

lemma run_frame:
  "microTaskQueueCapacity (snd (run as w)) = microTaskQueueCapacity w \<and>
   hasSetImmediate (snd (run as w)) = hasSetImmediate w \<and>
   immediates (snd (run as w)) = immediates w"
  by (induction as w rule: run.induct) simp_all

lemma call_effect:
  "\<exists>es. trace (snd (call t w)) = trace w @ Called t # es \<and> list_all enqueueEvent es \<and>
        taskQueue (snd (call t w)) = taskQueue w @ enqueued Macro es \<and>
        microTaskQueue (snd (call t w)) = microTaskQueue w @ map Some (enqueued Micro es)"
  using run_effect [of "body t" "w\<lparr>trace := trace w @ [Called t]\<rparr>"]
  by (simp add: call_def)

lemma call_result: "(fst (call t w) = None) = (\<not> throws t)"
  by (simp add: call_def throws_def run_result)

lemma call_frame:
  "microTaskQueueCapacity (snd (call t w)) = microTaskQueueCapacity w \<and>
   hasSetImmediate (snd (call t w)) = hasSetImmediate w \<and>
   immediates (snd (call t w)) = immediates w"
  using run_frame [of "body t" "w\<lparr>trace := trace w @ [Called t]\<rparr>"]
  by (simp add: call_def)

section \<open>The macro drain\<close>

lemma upToThrow_Cons:
  "upToThrow (t # ts) = (if throws t then [t] else t # upToThrow ts)"
  by (simp add: upToThrow_def)

lemma upToThrow_Nil [simp]: "upToThrow [] = []"
  by (simp add: upToThrow_def)

lemma macroLoop_effect:
  "\<exists>es. trace (outcomeWorld (macroLoop q i w)) = trace w @ es \<and>
        invoked es = upToThrow (drop i q) \<and>
        taskQueue (outcomeWorld (macroLoop q i w)) = taskQueue w @ enqueued Macro es \<and>
        microTaskQueue (outcomeWorld (macroLoop q i w)) =
          microTaskQueue w @ map Some (enqueued Micro es)"
proof (induction "length q - i" arbitrary: i w)
  case 0
  then show ?case by (subst (1 2 3) macroLoop.simps) simp
next
  case (Suc n)
  then have i: "i < length q" and n: "n = length q - Suc i" by simp_all
  let ?t = "q ! i"
  obtain r w' where c: "call ?t w = (r, w')" by (cases "call ?t w")
  obtain es where es: "trace w' = trace w @ Called ?t # es" "list_all enqueueEvent es"
      "taskQueue w' = taskQueue w @ enqueued Macro es"
      "microTaskQueue w' = microTaskQueue w @ map Some (enqueued Micro es)"
    using call_effect [of ?t w] c by auto
  have d: "drop i q = ?t # drop (Suc i) q"
    using i by (simp add: Cons_nth_drop_Suc)
  show ?case
  proof (cases r)
    case None
    then have nt: "\<not> throws ?t" using call_result [of ?t w] c by simp
    have step: "macroLoop q i w = macroLoop q (Suc i) w'"
      using i c None by (subst macroLoop.simps) simp
    obtain es' where es': "trace (outcomeWorld (macroLoop q (Suc i) w')) = trace w' @ es'"
      "invoked es' = upToThrow (drop (Suc i) q)"
      "taskQueue (outcomeWorld (macroLoop q (Suc i) w')) = taskQueue w' @ enqueued Macro es'"
      "microTaskQueue (outcomeWorld (macroLoop q (Suc i) w')) =
          microTaskQueue w' @ map Some (enqueued Micro es')"
      using Suc.hyps(1) [OF n, of w'] by auto
    show ?thesis
      unfolding step d
      by (rule exI [of _ "Called ?t # es @ es'"])
         (use es es' nt in \<open>simp add: upToThrow_Cons enqueueEvent_not_invoked\<close>)
  next
    case (Some e)
    then have th: "throws ?t" using call_result [of ?t w] c by auto
    have step: "macroLoop q i w = Caught e (Some ?t) w'"
      using i c Some by (subst macroLoop.simps) simp
    show ?thesis
      unfolding step d
      by (rule exI [of _ "Called ?t # es"])
         (use es th in \<open>simp add: upToThrow_Cons enqueueEvent_not_invoked\<close>)
  qed
qed

lemma macroLoop_outcome:
  "(\<exists>w'. macroLoop q i w = Completed w' \<and> \<not> list_ex throws (drop i q)) \<or>
   (\<exists>e t w' wp. macroLoop q i w = Caught e (Some t) w' \<and> t \<in> set (drop i q) \<and>
       call t wp = (Some e, w'))"
proof (induction "length q - i" arbitrary: i w)
  case 0
  then show ?case by (subst (1 2) macroLoop.simps) simp
next
  case (Suc n)
  then have i: "i < length q" and n: "n = length q - Suc i" by simp_all
  let ?t = "q ! i"
  obtain r w' where c: "call ?t w = (r, w')" by (cases "call ?t w")
  have d: "drop i q = ?t # drop (Suc i) q"
    using i by (simp add: Cons_nth_drop_Suc)
  show ?case
  proof (cases r)
    case None
    then have nt: "\<not> throws ?t" using call_result [of ?t w] c by simp
    have step: "macroLoop q i w = macroLoop q (Suc i) w'"
      using i c None by (subst macroLoop.simps) simp
    show ?thesis
      unfolding step d using Suc.hyps(1) [OF n, of w'] nt by auto
  next
    case (Some e)
    have step: "macroLoop q i w = Caught e (Some ?t) w'"
      using i c Some by (subst macroLoop.simps) simp
    show ?thesis
      unfolding step d using c Some by auto
  qed
qed

lemma onError_effect:
  "\<exists>es. trace (snd (onError e tk w)) = trace w @ es \<and> invoked es = [] \<and>
        taskQueue (snd (onError e tk w)) = taskQueue w @ enqueued Macro es \<and>
        microTaskQueue (snd (onError e tk w)) = microTaskQueue w @ map Some (enqueued Micro es)"
proof (cases tk)
  case None
  then show ?thesis by (simp add: onError_def)
next
  case (Some t)
  show ?thesis
  proof (cases "onErrorHandler t")
    case None
    then show ?thesis
      using Some by (simp add: onError_def setImmediate_def setTimeout_def)
  next
    case (Some h)
    let ?w = "w\<lparr>trace := trace w @ [OnErrorCalled t e]\<rparr>"
    obtain es where es: "trace (snd (run h ?w)) = trace ?w @ es" "list_all enqueueEvent es"
        "taskQueue (snd (run h ?w)) = taskQueue ?w @ enqueued Macro es"
        "microTaskQueue (snd (run h ?w)) = microTaskQueue ?w @ map Some (enqueued Micro es)"
      using run_effect [of h ?w] by blast
    show ?thesis
      by (rule exI [of _ "OnErrorCalled t e # es"])
         (use es Some \<open>tk = Some t\<close> in \<open>simp add: onError_def enqueueEvent_not_invoked\<close>)
  qed
qed

lemma flushTaskQueue_effect:
  "\<exists>es. trace (snd (flushTaskQueue w)) = trace w @ FlushStarted Macro # es \<and>
        invoked es = upToThrow (taskQueue w) \<and>
        taskQueue (snd (flushTaskQueue w)) = enqueued Macro es"
proof -
  let ?w1 = "w\<lparr>trace := trace w @ [FlushStarted Macro], taskQueue := []\<rparr>"
  let ?out = "macroLoop (taskQueue w) 0 ?w1"
  obtain es where es: "trace (outcomeWorld ?out) = trace ?w1 @ es"
      "invoked es = upToThrow (drop 0 (taskQueue w))"
      "taskQueue (outcomeWorld ?out) = taskQueue ?w1 @ enqueued Macro es"
    using macroLoop_effect [of "taskQueue w" 0 ?w1] by blast
  show ?thesis
  proof (cases ?out)
    case (Completed w2)
    then have "flushTaskQueue w = (None, w2)"
      by (simp add: flushTaskQueue_def)
    then show ?thesis
      using es Completed by (intro exI [of _ es]) simp
  next
    case (Caught e tk w2)
    then have f: "flushTaskQueue w = onError e tk w2"
      by (simp add: flushTaskQueue_def)
    obtain es' where es': "trace (snd (onError e tk w2)) = trace w2 @ es'" "invoked es' = []"
        "taskQueue (snd (onError e tk w2)) = taskQueue w2 @ enqueued Macro es'"
      using onError_effect [of e tk w2] by blast
    show ?thesis
      unfolding f using es es' Caught by (intro exI [of _ "es @ es'"]) simp
  qed
qed

lemma upToThrow_reaches:
  "\<not> list_ex throws pre \<Longrightarrow> \<exists>k. upToThrow (pre @ D # post) = pre @ D # take k post"
proof (induction pre)
  case Nil
  show ?case
  proof (cases "throws D")
    case True
    then show ?thesis by (intro exI [of _ 0]) (simp add: upToThrow_Cons)
  next
    case False
    then show ?thesis
      by (intro exI [of _ "Suc (length (takeWhile (\<lambda>t. \<not> throws t) post))"])
         (simp add: upToThrow_def)
  qed
next
  case (Cons p pre)
  then show ?case by (simp add: upToThrow_Cons)
qed

section \<open>The catch clause of the micro drain\<close>

lemma no_holes_map_Some: "None \<notin> set q \<Longrightarrow> q = map Some (map the q)"
  by (induction q) auto

lemma compaction_no_holes:
  assumes "None \<notin> set q" and "index \<le> length q"
  shows "None \<notin> set (take (length (shiftLoop 0 index q) - index) (shiftLoop 0 index q))"
proof -
  have q: "q = map Some (map the q)" using assms(1) by (rule no_holes_map_Some)
  have "take (length (shiftLoop 0 index (map Some (map the q))) - index)
          (shiftLoop 0 index (map Some (map the q)))
        = map Some (take (length (map the q) - index)
            (take index (drop index (map the q)) @ drop index (map the q)))"
    by (rule compaction_closed) (use assms(2) in simp)
  then obtain ts where "take (length (shiftLoop 0 index q) - index) (shiftLoop 0 index q) = map Some ts"
    using q by metis
  then show ?thesis by auto
qed

lemma call_queue_grows:
  "call t w = (r, w') \<Longrightarrow>
   \<exists>es. trace w' = trace w @ Called t # es \<and> list_all enqueueEvent es \<and>
        microTaskQueue w' = microTaskQueue w @ map Some (enqueued Micro es)"
  using call_effect [of t w] by auto

lemma microLoop_caught_aux:
  assumes "microLoop c i w = Some out"
  shows "\<forall>e tk w1. out = Caught e tk w1 \<longrightarrow> None \<notin> set (microTaskQueue w) \<longrightarrow>
           (\<exists>t wp es0. tk = Some t \<and> call t wp = (Some e, w1) \<and> trace wp = trace w @ es0 \<and>
                 microTaskQueue wp \<noteq> [])"
  using assms
proof (induction c i w out rule: microLoop.raw_induct [rotated 1, consumes 1, case_names step])
  case (step f c i w out)
  note IH = step.IH and eq = step.hyps
  show ?case
  proof (intro allI impI)
    fix e tk w1
    assume out: "out = Caught e tk w1" and nh: "None \<notin> set (microTaskQueue w)"
    have lt: "i < length (microTaskQueue w)"
      using eq out by (cases "i < length (microTaskQueue w)") simp_all
    then have "microTaskQueue w ! i \<noteq> None" using nh by (metis nth_mem)
    then obtain t where t: "microTaskQueue w ! i = Some t" by auto
    obtain r w' where c: "call t w = (r, w')" by (cases "call t w")
    obtain es where es: "trace w' = trace w @ Called t # es"
        "microTaskQueue w' = microTaskQueue w @ map Some (enqueued Micro es)"
      using call_queue_grows [OF c] by blast
    have nh': "None \<notin> set (microTaskQueue w')" using nh es(2) by auto
    have ne: "microTaskQueue w \<noteq> []" using lt by auto
    show "\<exists>t wp es0. tk = Some t \<and> call t wp = (Some e, w1) \<and> trace wp = trace w @ es0 \<and>
                 microTaskQueue wp \<noteq> []"
    proof (cases r)
      case (Some err)
      then have "out = Caught err (Some t) w'" using eq lt t c by simp
      then show ?thesis using out c Some ne by auto
    next
      case None
      show ?thesis
      proof (cases "c < i + 1")
        case False
        then have "f c (i + 1) w' = Some out" using eq lt t c None by simp
        from IH [OF this] out nh' obtain t' wp es0 where
          "tk = Some t'" "call t' wp = (Some e, w1)" "trace wp = trace w' @ es0" "microTaskQueue wp \<noteq> []"
          by blast
        then show ?thesis using es(1) by auto
      next
        case True
        let ?sh = "shiftLoop 0 (i + 1) (microTaskQueue w')"
        have len: "i + 1 \<le> length (microTaskQueue w')" using lt es(2) by simp
        then have "\<not> length ?sh < i + 1"
          using length_shiftLoop [of "microTaskQueue w'" 0 "i + 1"] by simp
        then have "f c 0 (w'\<lparr>microTaskQueue := take (length ?sh - (i + 1)) ?sh\<rparr>) = Some out"
          using eq lt t c None True by (simp add: Let_def)
        from IH [OF this] out compaction_no_holes [OF nh' len] obtain t' wp es0 where
          "tk = Some t'" "call t' wp = (Some e, w1)" "trace wp = trace w' @ es0" "microTaskQueue wp \<noteq> []"
          by auto
        then show ?thesis using es(1) by auto
      qed
    qed
  qed
qed

lemma microLoop_caught:
  assumes "microLoop c i w = Some (Caught e tk w1)" and "None \<notin> set (microTaskQueue w)"
  shows "\<exists>t es0 es1. tk = Some t \<and> throws t \<and>
            trace w1 = trace w @ es0 @ Called t # es1 \<and> list_all enqueueEvent es1 \<and>
            microTaskQueue w1 \<noteq> []"
proof -
  obtain t wp es0 where t: "tk = Some t" "call t wp = (Some e, w1)" "trace wp = trace w @ es0"
      "microTaskQueue wp \<noteq> []"
    using microLoop_caught_aux [OF assms(1)] assms(2) by blast
  obtain es1 where "trace w1 = trace wp @ Called t # es1" "list_all enqueueEvent es1"
      "microTaskQueue w1 = microTaskQueue wp @ map Some (enqueued Micro es1)"
    using call_queue_grows [OF t(2)] by blast
  moreover have "throws t" using call_result [of t wp] t(2) by auto
  ultimately show ?thesis using t by auto
qed

lemma onError_invoked: "invoked (trace (snd (onError e tk w))) = invoked (trace w)"
  using onError_effect [of e tk w] by auto



section \<open>Exceptions that leave the error sink\<close>

lemma onError_throws_only_from_handler:
  assumes "onError e (Some x) w1 = (Some e', w')"
  shows "\<exists>h. onErrorHandler x = Some h \<and> list_ex isThrow h \<and>
             run h (w1\<lparr>trace := trace w1 @ [OnErrorCalled x e]\<rparr>) = (Some e', w')"
proof (cases "onErrorHandler x")
  case None
  then show ?thesis using assms by (simp add: onError_def split: if_splits)
next
  case (Some h)
  then have r: "run h (w1\<lparr>trace := trace w1 @ [OnErrorCalled x e]\<rparr>) = (Some e', w')"
    using assms by (simp add: onError_def)
  then have "list_ex isThrow h"
    using run_result [of h "w1\<lparr>trace := trace w1 @ [OnErrorCalled x e]\<rparr>"] by auto
  then show ?thesis using Some r by simp
qed

section \<open>Timers that have fired\<close>

lemma requestFlushTaskQueue_fields:
  "timers (requestFlushTaskQueue w) =
     timers w @ [Timer (nextHandle w) OneShot 0 (HandleFlushTimer (nextHandle w) (nextHandle w + 1)),
                 Timer (nextHandle w + 1) Repeating 50
                   (HandleFlushTimer (nextHandle w) (nextHandle w + 1))]"
  "nextHandle (requestFlushTaskQueue w) = nextHandle w + 2"
  "trace (requestFlushTaskQueue w) = trace w @ [RequestFlush Macro]"
  by (simp_all add: requestFlushTaskQueue_def setTimeout_def setInterval_def Let_def)

lemma spent_queueMicroTask: "spent h n w \<Longrightarrow> spent h n (queueMicroTask t w)"
  by (simp add: spent_def)

lemma spent_queueTask: "spent h n w \<Longrightarrow> spent h n (queueTask t w)"
  by (auto simp add: spent_def find_None_iff)

lemma spent_run: "spent h n w \<Longrightarrow> spent h n (snd (run as w))"
  by (induction as w rule: run.induct) (simp_all add: spent_queueMicroTask spent_queueTask)

lemma spent_call: "spent h n w \<Longrightarrow> spent h n (snd (call t w))"
proof -
  assume "spent h n w"
  then have "spent h n (w\<lparr>trace := trace w @ [Called t]\<rparr>)"
    by (simp add: spent_def)
  then show ?thesis unfolding call_def by (rule spent_run)
qed

lemma spent_onError: "spent h n w \<Longrightarrow> spent h n (snd (onError e tk w))"
proof (cases tk)
  case None
  assume "spent h n w"
  then show ?thesis using None by (simp add: onError_def)
next
  case (Some t)
  assume s: "spent h n w"
  show ?thesis
  proof (cases "onErrorHandler t")
    case None
    then show ?thesis
      using s Some
      by (auto simp add: onError_def spent_def setImmediate_def setTimeout_def find_None_iff)
  next
    case (Some hd)
    have "spent h n (w\<lparr>trace := trace w @ [OnErrorCalled t e]\<rparr>)"
      using s by (simp add: spent_def)
    then have "spent h n (snd (run hd (w\<lparr>trace := trace w @ [OnErrorCalled t e]\<rparr>)))"
      by (rule spent_run)
    then show ?thesis using Some \<open>tk = Some t\<close> by (simp add: onError_def)
  qed
qed

lemma spent_macroLoop: "spent h n w \<Longrightarrow> spent h n (outcomeWorld (macroLoop q i w))"
proof (induction "length q - i" arbitrary: i w)
  case 0
  then show ?case by (subst macroLoop.simps) simp
next
  case (Suc k)
  then have i: "i < length q" and k: "k = length q - Suc i" by simp_all
  obtain r w' where c: "call (q ! i) w = (r, w')" by (cases "call (q ! i) w")
  have s': "spent h n w'" using spent_call [OF Suc.prems, of "q ! i"] c by simp
  show ?case
  proof (cases r)
    case None
    then have "macroLoop q i w = macroLoop q (Suc i) w'"
      using i c by (subst macroLoop.simps) simp
    then show ?thesis using Suc.hyps(1) [OF k s'] by simp
  next
    case (Some e)
    then have "macroLoop q i w = Caught e (Some (q ! i)) w'"
      using i c by (subst macroLoop.simps) simp
    then show ?thesis using s' by simp
  qed
qed

lemma spent_flushTaskQueue: "spent h n w \<Longrightarrow> spent h (n + 1) (snd (flushTaskQueue w))"
proof -
  assume s: "spent h n w"
  let ?w0 = "w\<lparr>trace := trace w @ [FlushStarted Macro], taskQueue := []\<rparr>"
  have s0: "spent h (n + 1) ?w0" using s by (simp add: spent_def)
  have sl: "spent h (n + 1) (outcomeWorld (macroLoop (taskQueue w) 0 ?w0))"
    using s0 by (rule spent_macroLoop)
  show ?thesis
  proof (cases "macroLoop (taskQueue w) 0 ?w0")
    case (Completed w2)
    then show ?thesis using sl by (simp add: flushTaskQueue_def)
  next
    case (Caught e tk w2)
    then have "spent h (n + 1) w2" using sl by simp
    then have "spent h (n + 1) (snd (onError e tk w2))" by (rule spent_onError)
    then show ?thesis using Caught by (simp add: flushTaskQueue_def)
  qed
qed

lemma spent_not_fired: "spent h n w \<Longrightarrow> fireTimer h w = None"
  by (simp add: spent_def fireTimer_def)

lemma fireAll_spent:
  assumes "spent a n w" and "spent b n w" and "set hs \<subseteq> {a, b}"
  shows "fireAll hs w = w"
  using assms(3)
proof (induction hs)
  case Nil
  show ?case by simp
next
  case (Cons h hs)
  then have "h = a \<or> h = b" by auto
  then have "fireTimer h w = None"
    using assms(1,2) by (auto simp add: spent_not_fired)
  then show ?case using Cons by simp
qed

lemma first_fire:
  assumes fresh: "\<forall>t\<in>set (timers w). handle t < nextHandle w"
    and h: "h = nextHandle w \<or> h = nextHandle w + 1"
  shows "\<exists>r w'. fireTimer h ((requestFlushTaskQueue w)\<lparr>taskQueue := q\<rparr>) = Some (r, w') \<and>
           spent (nextHandle w) (count_list (trace w) (FlushStarted Macro) + 1) w' \<and>
           spent (nextHandle w + 1) (count_list (trace w) (FlushStarted Macro) + 1) w'"
proof -
  let ?th = "nextHandle w" and ?ih = "nextHandle w + 1"
  let ?n = "count_list (trace w) (FlushStarted Macro)"
  let ?cb = "HandleFlushTimer ?th ?ih"
  let ?v = "(requestFlushTaskQueue w)\<lparr>taskQueue := q\<rparr>"
  have tm: "timers ?v = timers w @ [Timer ?th OneShot 0 ?cb, Timer ?ih Repeating 50 ?cb]"
    and nh: "nextHandle ?v = ?th + 2"
    and tr: "trace ?v = trace w @ [RequestFlush Macro]"
    by (simp_all add: requestFlushTaskQueue_fields)
  have none: "find (\<lambda>t. handle t = k) (timers w) = None" if "nextHandle w \<le> k" for k
    using fresh that by (auto simp add: find_None_iff)
  have find_app: "find P (xs @ ys) = (case find P xs of None \<Rightarrow> find P ys | Some x \<Rightarrow> Some x)"
    for P :: "timer \<Rightarrow> bool" and xs ys
    by (induction xs) simp_all
  have cleared: "spent ?th ?n (clearInterval ?ih (clearTimeout ?th x)) \<and>
                 spent ?ih ?n (clearInterval ?ih (clearTimeout ?th x))"
    if "nextHandle x = ?th + 2" and "trace x = trace w @ [RequestFlush Macro]" for x
    using that
    by (auto simp add: spent_def clearInterval_def clearTimeout_def find_None_iff)
  from h show ?thesis
  proof
    assume hh: "h = ?th"
    have f: "find (\<lambda>t. handle t = h) (timers ?v) = Some (Timer ?th OneShot 0 ?cb)"
      unfolding tm hh by (simp add: find_app none)
    define u where
      "u = clearInterval ?ih (clearTimeout ?th (?v\<lparr>timers := filter (\<lambda>x. handle x \<noteq> h) (timers ?v)\<rparr>))"
    have fire: "fireTimer h ?v = Some (flushTaskQueue u)"
      unfolding u_def using f by (simp add: fireTimer_def runCallback_def)
    have "spent ?th ?n u \<and> spent ?ih ?n u"
      unfolding u_def by (rule cleared) (simp_all add: requestFlushTaskQueue_fields)
    then have "spent ?th (?n + 1) (snd (flushTaskQueue u)) \<and> spent ?ih (?n + 1) (snd (flushTaskQueue u))"
      using spent_flushTaskQueue by blast
    then show ?thesis
      unfolding fire by (intro exI [of _ "fst (flushTaskQueue u)"] exI [of _ "snd (flushTaskQueue u)"]) simp
  next
    assume hh: "h = ?ih"
    have f: "find (\<lambda>t. handle t = h) (timers ?v) = Some (Timer ?ih Repeating 50 ?cb)"
      unfolding tm hh by (simp add: find_app none)
    define u where "u = clearInterval ?ih (clearTimeout ?th ?v)"
    have fire: "fireTimer h ?v = Some (flushTaskQueue u)"
      unfolding u_def using f by (simp add: fireTimer_def runCallback_def)
    have "spent ?th ?n u \<and> spent ?ih ?n u"
      unfolding u_def by (rule cleared) (simp_all add: requestFlushTaskQueue_fields)
    then have "spent ?th (?n + 1) (snd (flushTaskQueue u)) \<and> spent ?ih (?n + 1) (snd (flushTaskQueue u))"
      using spent_flushTaskQueue by blast
    then show ?thesis
      unfolding fire by (intro exI [of _ "fst (flushTaskQueue u)"] exI [of _ "snd (flushTaskQueue u)"]) simp
  qed
qed

section \<open>Queues that fit, and the macro tier\<close>

lemma compacted_fits:
  "n \<le> length ts \<Longrightarrow> length ts \<le> 2 * n \<Longrightarrow> compacted n ts = drop n ts"
  by (simp add: compacted_def)

text \<open>
  As long as the queue never holds more than twice \<open>capacity + 1\<close> tasks, a drain of
  tasks that do nothing invokes each of them once, in order.
\<close>

lemma inert_fits:
  assumes q: "microTaskQueue w = map Some ts"
    and len: "length ts \<le> 2 * (c + 1)"
    and inert: "\<forall>t \<in> set ts. body t = []"
  shows "\<exists>w'. microLoop c 0 w = Some (Completed w') \<and> trace w' = trace w @ map Called ts"
proof (cases "length ts \<le> c")
  case True
  have "microLoop c 0 w = Some (Completed (w\<lparr>trace := trace w @ map Called ts\<rparr>))"
    using q True inert by (rule inert_final)
  then show ?thesis by simp
next
  case False
  let ?D = "drop (c + 1) ts"
  let ?w1 = "w\<lparr>trace := trace w @ map Called (take (c + 1) ts), microTaskQueue := map Some ?D\<rparr>"
  have cd: "compacted (c + 1) ts = ?D"
    using False len by (intro compacted_fits) simp_all
  have b1: "microLoop c 0 w = microLoop c 0 ?w1"
    using inert_block [OF q, of c] False inert cd by (auto dest: in_set_takeD)
  have inertD: "\<forall>t \<in> set ?D. body t = []"
    using inert by (auto dest: in_set_dropD)
  have split: "map Called (take (c + 1) ts) @ map Called ?D = map Called ts"
    by (simp only: map_append [symmetric] append_take_drop_id)
  show ?thesis
  proof (cases "length ?D \<le> c")
    case True
    have "microLoop c 0 ?w1 = Some (Completed (?w1\<lparr>trace := trace ?w1 @ map Called ?D\<rparr>))"
      using True inertD by (intro inert_final) simp_all
    then show ?thesis
      unfolding b1 using split by simp
  next
    case F2: False
    then have lD: "length ?D = c + 1" using len by simp
    let ?w2 = "?w1\<lparr>trace := trace ?w1 @ map Called (take (c + 1) ?D),
                   microTaskQueue := map Some (compacted (c + 1) ?D)\<rparr>"
    have b2: "microLoop c 0 ?w1 = microLoop c 0 ?w2"
      using F2 inertD by (intro inert_block) (auto dest: in_set_takeD)
    have e: "compacted (c + 1) ?D = []" "take (c + 1) ?D = ?D"
      unfolding compacted_def lD using lD by simp_all
    have "microLoop c 0 ?w2 = Some (Completed (?w2\<lparr>trace := trace ?w2 @ map Called []\<rparr>))"
      by (intro inert_final) (use e in simp_all)
    then show ?thesis
      unfolding b1 b2 using split e by simp
  qed
qed

lemma micro_burst_within_two_blocks:
  assumes "length ts \<le> 2050" and "\<forall>t \<in> set ts. body t = []"
  shows "map_option (\<lambda>r. (fst r, invoked (trace (snd r))))
           (flushMicroTaskQueue (fold queueMicroTask ts (newTaskQueue hsi))) = Some (None, ts)"
proof -
  define W where "W = fold queueMicroTask ts (newTaskQueue hsi)"
  let ?W0 = "W\<lparr>trace := trace W @ [FlushStarted Micro]\<rparr>"
  have q: "microTaskQueue ?W0 = map Some ts" and c: "microTaskQueueCapacity ?W0 = 1024"
    and tr: "invoked (trace W) = []"
    unfolding W_def by (simp_all add: fold_queueMicroTask_queue newTaskQueue_def)
  obtain w' where "microLoop 1024 0 ?W0 = Some (Completed w')"
      "trace w' = trace ?W0 @ map Called ts"
    using inert_fits [OF q, of 1024] assms by auto
  then show ?thesis
    unfolding W_def [symmetric] flushMicroTaskQueue_def Let_def c by (simp add: tr)
qed

text \<open>A macro drain of tasks none of which throws invokes exactly the queued tasks, in order.\<close>

lemma call_throws: "call t w = (Some e, w') \<Longrightarrow> throws t"
  using call_result [of t w] by auto

lemma upToThrow_all: "\<not> list_ex throws ts \<Longrightarrow> upToThrow ts = ts"
  by (induction ts) (simp_all add: upToThrow_Cons)

lemma macro_fifo:
  assumes "\<not> list_ex throws (taskQueue w)"
  shows "\<exists>es. trace (snd (flushTaskQueue w)) = trace w @ FlushStarted Macro # es \<and>
              invoked es = taskQueue w \<and> fst (flushTaskQueue w) = None"
proof -
  have "upToThrow (taskQueue w) = taskQueue w"
    using assms by (rule upToThrow_all)
  moreover have "fst (flushTaskQueue w) = None"
    using macroLoop_outcome [of "taskQueue w" 0 "w\<lparr>trace := trace w @ [FlushStarted Macro], taskQueue := []\<rparr>"]
      assms
    by (auto simp add: flushTaskQueue_def list_ex_iff dest: call_throws)
  ultimately show ?thesis
    using flushTaskQueue_effect [of w] by auto
qed

section \<open>The micro drain stops at the first throw\<close>






section \<open>Claims\<close>



text \<open>
  C1 (FIFO), at the input where the code departs from it: 2051 tasks that do nothing are
  enqueued on the micro tier of a fresh queue and the drain runs. The drain returns
  normally and has invoked tasks 0 to 2049 in order, then task 1025 a second time; task
  2050 is never invoked.
\<close>

theorem micro_fifo_fails_at_2051:
  "map_option (\<lambda>r. (fst r, invoked (trace (snd r))))
     (flushMicroTaskQueue (fold queueMicroTask (map noop [0..<2051]) (newTaskQueue hsi)))
   = Some (None, map noop ([0..<2050] @ [1025]))"
  using noop_burst_drain [of 2051 hsi] by simp

text \<open>
  C2 (compaction), at an input where the code departs from it: a burst of 3000 no-op
  micro tasks. The drain invokes tasks 0 to 2049 in order and then tasks 1025 to 1974 a
  second time; tasks 2050 to 2999 are never invoked. The first compaction (at index 1025,
  with 1975 tasks not yet run) leaves tasks 1025 to 2049 followed by tasks 1025 to 1974
  in the buffer: only 1025 entries of the suffix were copied down.
\<close>

theorem micro_burst_3000_loses_tasks:
  "map_option (\<lambda>r. (fst r, invoked (trace (snd r))))
     (flushMicroTaskQueue (fold queueMicroTask (map noop [0..<3000]) (newTaskQueue hsi)))
   = Some (None, map noop ([0..<2050] @ [1025..<1975]))
   \<and> take (length (shiftLoop 0 1025 (map Some (map noop [0..<3000]))) - 1025)
         (shiftLoop 0 1025 (map Some (map noop [0..<3000])))
     = map Some (map noop ([1025..<2050] @ [1025..<1975]))"
proof -
  have ts: "map noop [0..<3000] = map noop [0..<1025] @ map noop [1025..<2050] @ map noop [2050..<3000]"
    by (simp only: upt_split3 [of 1025 2050 3000] map_append)
  have "compacted 1025 (map noop [0..<3000]) = map noop ([1025..<2050] @ [1025..<1975])"
    unfolding ts by (subst compacted_overfull) (simp_all add: take_map del: upt_rec_numeral)
  then show ?thesis
    using noop_burst_drain [of 3000 hsi] compaction_closed [of 1025 "map noop [0..<3000]"]
    by (simp add: compacted_def del: upt_rec_numeral)
qed

text \<open>
  C4 (micro reentrancy), at an input where the code departs from it: the first of 2051
  micro tasks enqueues task 9999 while it runs; no task throws. The drain returns normally
  without ever having invoked task 9999, although it was enqueued during the drain.
\<close>

theorem micro_reentrant_task_lost:
  "map_option (\<lambda>r. (fst r, invoked (trace (snd r)), Enqueued Micro (noop 9999) \<in> set (trace (snd r))))
     (flushMicroTaskQueue
        (fold queueMicroTask (spawner 5000 (noop 9999) # map noop [0..<2050]) (newTaskQueue hsi)))
   = Some (None, spawner 5000 (noop 9999) # map noop ([0..<2049] @ [1024, 1025]), True)"
proof -
  let ?E = "noop 9999"
  let ?S = "spawner 5000 ?E"
  define W where "W = fold queueMicroTask (?S # map noop [0..<2050]) (newTaskQueue hsi)"
  let ?W0 = "W\<lparr>trace := trace W @ [FlushStarted Micro]\<rparr>"
  let ?W1 = "queueMicroTask ?E (?W0\<lparr>trace := trace ?W0 @ [Called ?S]\<rparr>)"
  let ?A = "?S # map noop [0..<1024]" and ?B = "map noop [1024..<2049]"
  let ?C = "[noop 2049, ?E]"
  have u0: "[0..<2050] = [0..<1024] @ [1024..<2049] @ [2049::nat]"
  proof -
    have "[2049..<2050] = [2049::nat]" by simp
    then show ?thesis
      using upt_split3 [of 1024 2049 2050] by (simp del: upt_rec_numeral)
  qed
  have q0: "microTaskQueue W = map Some (?A @ ?B @ [noop 2049])"
    unfolding W_def u0
    by (simp add: fold_queueMicroTask_queue newTaskQueue_def del: upt_rec_numeral)
  have c: "microTaskQueueCapacity ?W0 = 1024"
    and tr: "invoked (trace W) = []"
    unfolding W_def
    by (simp_all add: fold_queueMicroTask_queue newTaskQueue_def del: upt_rec_numeral)
  have q1: "microTaskQueue ?W1 = map Some (?A @ ?B @ ?C)"
    by (simp add: q0)
  have call: "call ?S ?W0 = (None, ?W1)"
    by (simp add: call_def spawner_def)
  have s1: "microLoop 1024 0 ?W0 = microLoop 1024 (0 + 1) ?W1"
    by (rule microLoop_next [where t = ?S]) (simp_all add: q0 call)
  have s2: "microLoop 1024 1 ?W1 =
     Some (Completed (?W1\<lparr>trace := trace ?W1 @ map Called (drop 1 ?A @ ?B @ take (length ?C) ?B),
                            microTaskQueue := map Some (take (length ?C) ?B)\<rparr>))"
    by (rule inert_overfull [OF q1]) (auto simp del: upt_rec_numeral)
  have two: "[1024..<1026] = [1024, 1025::nat]" by simp
  have tk: "take (Suc (Suc 0)) ?B = [noop 1024, noop 1025]"
    by (simp add: take_map two del: upt_rec_numeral)
  have "[0..<1024] @ [1024..<2049] = [0..<2049]"
    using upt_split3 [of 1024 2049 2049] by simp
  then have "map noop [0..<1024] @ map noop [1024..<2049] = map noop [0..<2049]"
    by (simp only: map_append [symmetric])
  then have j: "map noop [0..<1024] @ map noop [1024..<2049] @ xs = map noop [0..<2049] @ xs" for xs
    by (simp only: append_assoc [symmetric])
  have en: "Enqueued Micro ?E \<in> set (trace ?W1)"
    by simp
  have loop: "microLoop 1024 0 ?W0 =
     Some (Completed (?W1\<lparr>trace := trace ?W1 @ map Called (drop 1 ?A @ ?B @ take (length ?C) ?B),
                            microTaskQueue := map Some (take (length ?C) ?B)\<rparr>))"
    using s1 s2 by simp
  show ?thesis
    unfolding W_def [symmetric] flushMicroTaskQueue_def Let_def c loop
    by (simp add: tk tr j del: upt_rec_numeral)
qed

text \<open>
  C3 (macro deferred reentrancy), as the code has it. A macro drain invokes only tasks of
  the queue as it stood when the drain began (in order, up to and including the first task
  that throws), so a task \<open>D\<close> enqueued with \<^verbatim>\<open>queueTask\<close> during the drain is not invoked by
  it; the tasks enqueued during the drain are exactly the queue left for the next drain, in
  order. The next drain invokes \<open>D\<close> provided no task queued ahead of \<open>D\<close> throws.
\<close>

theorem macro_reentrant_deferred:
  "\<exists>es. trace (snd (flushTaskQueue w)) = trace w @ FlushStarted Macro # es
      \<and> invoked es = upToThrow (taskQueue w)
      \<and> taskQueue (snd (flushTaskQueue w)) = enqueued Macro es
      \<and> (\<forall>pre D post. enqueued Macro es = pre @ D # post \<and> \<not> list_ex throws pre \<longrightarrow>
           (\<exists>es' k. trace (snd (flushTaskQueue (snd (flushTaskQueue w)))) =
                       trace (snd (flushTaskQueue w)) @ FlushStarted Macro # es'
                   \<and> invoked es' = pre @ D # take k post))"
proof -
  let ?w' = "snd (flushTaskQueue w)"
  obtain es where es: "trace ?w' = trace w @ FlushStarted Macro # es"
      "invoked es = upToThrow (taskQueue w)" "taskQueue ?w' = enqueued Macro es"
    using flushTaskQueue_effect [of w] by blast
  obtain es' where es': "trace (snd (flushTaskQueue ?w')) = trace ?w' @ FlushStarted Macro # es'"
      "invoked es' = upToThrow (taskQueue ?w')"
    using flushTaskQueue_effect [of ?w'] by blast
  have "\<exists>es' k. trace (snd (flushTaskQueue ?w')) = trace ?w' @ FlushStarted Macro # es'
                   \<and> invoked es' = pre @ D # take k post"
    if "enqueued Macro es = pre @ D # post" and "\<not> list_ex throws pre" for pre D post
    using upToThrow_reaches [OF that(2), of D post] es' es(3) that(1) by auto
  then show ?thesis using es by blast
qed

theorem macro_reentrant_deferred_witness:
  "trace (snd (flushTaskQueue (queueTask (macroSpawner 1 [noop 2]) (newTaskQueue True)))) =
     trace (queueTask (macroSpawner 1 [noop 2]) (newTaskQueue True)) @
       [FlushStarted Macro, Called (macroSpawner 1 [noop 2]), Enqueued Macro (noop 2),
        RequestFlush Macro]
   \<and> taskQueue (snd (flushTaskQueue (queueTask (macroSpawner 1 [noop 2]) (newTaskQueue True)))) =
       [] @ noop 2 # []
   \<and> \<not> list_ex throws []
   \<and> (\<exists>es'. trace (snd (flushTaskQueue (snd (flushTaskQueue
              (queueTask (macroSpawner 1 [noop 2]) (newTaskQueue True)))))) =
          trace (snd (flushTaskQueue (queueTask (macroSpawner 1 [noop 2]) (newTaskQueue True))))
            @ FlushStarted Macro # es'
        \<and> invoked es' = [noop 2])"
proof -
  let ?W = "queueTask (macroSpawner 1 [noop 2]) (newTaskQueue True)"
  have ev: "flushTaskQueue ?W =
      (None, ?W\<lparr>taskQueue := [noop 2],
                 timers := timers ?W @ [Timer 3 OneShot 0 (HandleFlushTimer 3 4),
                                        Timer 4 Repeating 50 (HandleFlushTimer 3 4)],
                 nextHandle := 5,
                 trace := trace ?W @ [FlushStarted Macro, Called (macroSpawner 1 [noop 2]),
                                      Enqueued Macro (noop 2), RequestFlush Macro]\<rparr>)"
    by (simp add: flushTaskQueue_def macroLoop.simps call_def macroSpawner_def queueTask_def
        requestFlushTaskQueue_def setTimeout_def setInterval_def newTaskQueue_def Let_def)
  obtain es where es: "trace (snd (flushTaskQueue ?W)) = trace ?W @ FlushStarted Macro # es"
      "taskQueue (snd (flushTaskQueue ?W)) = enqueued Macro es"
      "\<forall>pre D post. enqueued Macro es = pre @ D # post \<and> \<not> list_ex throws pre \<longrightarrow>
           (\<exists>es' k. trace (snd (flushTaskQueue (snd (flushTaskQueue ?W)))) =
                       trace (snd (flushTaskQueue ?W)) @ FlushStarted Macro # es'
                   \<and> invoked es' = pre @ D # take k post)"
    using macro_reentrant_deferred [of ?W] by blast
  have q: "enqueued Macro es = [] @ noop 2 # []"
    using es(2) ev by simp
  have "\<not> list_ex throws []" by simp
  with q es(3) obtain es' k where
    "trace (snd (flushTaskQueue (snd (flushTaskQueue ?W)))) =
        trace (snd (flushTaskQueue ?W)) @ FlushStarted Macro # es'"
    "invoked es' = [] @ noop 2 # take k []"
    by blast
  then show ?thesis using ev by auto
qed

text \<open>
  The claim as stated (\<open>D\<close> is invoked in the next macro drain) fails when a task enqueued
  ahead of \<open>D\<close> throws in that drain: task 1 enqueues a throwing task 2 and then task 3.
  The next drain invokes task 2, aborts, and leaves the queue empty; task 3 never runs.
\<close>

theorem macro_next_cycle_counterexample:
  "taskQueue (snd (flushTaskQueue (queueTask
       (macroSpawner 1 [thrower 2 (UserError 7), noop 3]) (newTaskQueue True)))) =
     [thrower 2 (UserError 7), noop 3]
   \<and> invoked (trace (snd (flushTaskQueue (snd (flushTaskQueue (queueTask
       (macroSpawner 1 [thrower 2 (UserError 7), noop 3]) (newTaskQueue True))))))) =
     [macroSpawner 1 [thrower 2 (UserError 7), noop 3], thrower 2 (UserError 7)]
   \<and> taskQueue (snd (flushTaskQueue (snd (flushTaskQueue (queueTask
       (macroSpawner 1 [thrower 2 (UserError 7), noop 3]) (newTaskQueue True)))))) = []"
  by (simp add: flushTaskQueue_def macroLoop.simps call_def macroSpawner_def queueTask_def
        requestFlushTaskQueue_def setTimeout_def setInterval_def newTaskQueue_def Let_def
        thrower_def onError_def setImmediate_def)

text \<open>
  C6 (micro drain, a task throws), at an input where the code departs from it: a no-op
  task, a task whose body throws and whose \<^verbatim>\<open>onError\<close> handler throws too, and another
  no-op task are enqueued on the micro tier of a fresh queue, and the drain runs. The loop
  aborts at the throwing task (the third task is not invoked) and the error and the task
  reach \<^verbatim>\<open>onError\<close>, but the handler's exception leaves the drain before
  \<^verbatim>\<open>queue.length = 0\<close>: all three tasks are still in the queue afterwards, and since the
  queue is not empty a later \<^verbatim>\<open>queueMicroTask\<close> requests no flush.
\<close>

theorem micro_handler_throw_skips_truncation:
  "map_option (\<lambda>r. (fst r, invoked (trace (snd r)), microTaskQueue (snd r),
        OnErrorCalled (rethrower 1 (UserError 7) (UserError 8)) (UserError 7) \<in> set (trace (snd r)),
        filter (\<lambda>ev. ev = RequestFlush Micro) (trace (queueMicroTask (noop 3) (snd r)))))
     (flushMicroTaskQueue
        (fold queueMicroTask [noop 0, rethrower 1 (UserError 7) (UserError 8), noop 2]
           (newTaskQueue True)))
   = Some (Some (UserError 8),
           [noop 0, rethrower 1 (UserError 7) (UserError 8)],
           [Some (noop 0), Some (rethrower 1 (UserError 7) (UserError 8)), Some (noop 2)],
           True,
           [RequestFlush Micro])"
proof -
  let ?T = "rethrower 1 (UserError 7) (UserError 8)"
  let ?W = "fold queueMicroTask [noop 0, ?T, noop 2] (newTaskQueue True)"
  let ?W1 = "?W\<lparr>trace := trace ?W @ [FlushStarted Micro, Called (noop 0), Called ?T]\<rparr>"
  let ?W2 = "?W\<lparr>trace := trace ?W @ [FlushStarted Micro, Called (noop 0), Called ?T,
                                         OnErrorCalled ?T (UserError 7)]\<rparr>"
  have loop: "microLoop (microTaskQueueCapacity (?W\<lparr>trace := trace ?W @ [FlushStarted Micro]\<rparr>)) 0
                 (?W\<lparr>trace := trace ?W @ [FlushStarted Micro]\<rparr>)
        = Some (Caught (UserError 7) (Some ?T) ?W1)"
    by (subst microLoop.simps, simp add: call_def noop_def rethrower_def newTaskQueue_def)+
  have oe: "onError (UserError 7) (Some ?T) ?W1 = (Some (UserError 8), ?W2)"
    by (simp add: onError_def rethrower_def)
  have fl: "flushMicroTaskQueue ?W = Some (Some (UserError 8), ?W2)"
    unfolding flushMicroTaskQueue_def Let_def loop by (simp only: oe option.case outcome.case prod.case)
  show ?thesis
    unfolding fl by (simp add: newTaskQueue_def)
qed




text \<open>
  C8. Neither enqueue operation runs a task or a drain: all it adds to the trace are
  enqueue and flush-request events, so no error of a task body can surface in its caller.
  Every error a task body throws during a drain is caught by that drain: whenever an
  exception does leave \<^verbatim>\<open>flushTaskQueue\<close> or \<^verbatim>\<open>flushMicroTaskQueue\<close> (the latter on a
  hole-free queue), it was thrown by the \<^verbatim>\<open>onError\<close> handler of a task whose body had
  thrown, while that handler was run by the error sink.
\<close>

theorem task_errors_stay_in_drain:
  "(\<exists>es. trace (queueMicroTask t w) = trace w @ es \<and> list_all enqueueEvent es)
   \<and> (\<exists>es. trace (queueTask t w) = trace w @ es \<and> list_all enqueueEvent es)
   \<and> (\<forall>e'. fst (flushTaskQueue w) = Some e' \<longrightarrow>
        (\<exists>x h e w1. x \<in> set (taskQueue w) \<and> throws x \<and> onErrorHandler x = Some h
           \<and> list_ex isThrow h
           \<and> flushTaskQueue w = run h (w1\<lparr>trace := trace w1 @ [OnErrorCalled x e]\<rparr>)))
   \<and> (\<forall>e' w'. None \<notin> set (microTaskQueue w) \<and> flushMicroTaskQueue w = Some (Some e', w') \<longrightarrow>
        (\<exists>x h e w1. throws x \<and> onErrorHandler x = Some h \<and> list_ex isThrow h
           \<and> run h (w1\<lparr>trace := trace w1 @ [OnErrorCalled x e]\<rparr>) = (Some e', w')))"
proof (intro conjI allI impI)
  show "\<exists>es. trace (queueMicroTask t w) = trace w @ es \<and> list_all enqueueEvent es"
    by simp
  show "\<exists>es. trace (queueTask t w) = trace w @ es \<and> list_all enqueueEvent es"
    by simp
next
  fix e'
  assume thr: "fst (flushTaskQueue w) = Some e'"
  let ?w0 = "w\<lparr>trace := trace w @ [FlushStarted Macro], taskQueue := []\<rparr>"
  from macroLoop_outcome [of "taskQueue w" 0 ?w0]
  show "\<exists>x h e w1. x \<in> set (taskQueue w) \<and> throws x \<and> onErrorHandler x = Some h
           \<and> list_ex isThrow h
           \<and> flushTaskQueue w = run h (w1\<lparr>trace := trace w1 @ [OnErrorCalled x e]\<rparr>)"
  proof (elim disjE exE conjE)
    fix w1
    assume "macroLoop (taskQueue w) 0 ?w0 = Completed w1"
    then have "flushTaskQueue w = (None, w1)" by (simp add: flushTaskQueue_def)
    then show ?thesis using thr by simp
  next
    fix e x w1 wp
    assume c: "macroLoop (taskQueue w) 0 ?w0 = Caught e (Some x) w1"
      and x: "x \<in> set (drop 0 (taskQueue w))" and call: "call x wp = (Some e, w1)"
    have f: "flushTaskQueue w = onError e (Some x) w1"
      using c by (simp add: flushTaskQueue_def)
    then have oe: "onError e (Some x) w1 = (Some e', snd (flushTaskQueue w))"
      using thr by (simp add: prod_eq_iff)
    from onError_throws_only_from_handler [OF this] obtain h where
      h: "onErrorHandler x = Some h" "list_ex isThrow h"
      "run h (w1\<lparr>trace := trace w1 @ [OnErrorCalled x e]\<rparr>) = (Some e', snd (flushTaskQueue w))"
      by blast
    have "flushTaskQueue w = run h (w1\<lparr>trace := trace w1 @ [OnErrorCalled x e]\<rparr>)"
      using f oe h(3) by simp
    moreover have "throws x" using call_result [of x wp] call by auto
    moreover have "x \<in> set (taskQueue w)" using x by simp
    ultimately show ?thesis using h(1,2) by blast
  qed
next
  fix e' w'
  assume a: "None \<notin> set (microTaskQueue w) \<and> flushMicroTaskQueue w = Some (Some e', w')"
  let ?w0 = "w\<lparr>trace := trace w @ [FlushStarted Micro]\<rparr>"
  from a obtain e tk w1 where loop: "microLoop (microTaskQueueCapacity w) 0 ?w0 = Some (Caught e tk w1)"
    and oe: "onError e tk w1 = (Some e', w')"
    by (auto simp add: flushMicroTaskQueue_def split: option.splits outcome.splits prod.splits)
  from microLoop_caught [OF loop] a obtain x where x: "tk = Some x" "throws x"
    by auto
  from onError_throws_only_from_handler [OF oe [unfolded x(1)]] x(2)
  show "\<exists>x h e w1. throws x \<and> onErrorHandler x = Some h \<and> list_ex isThrow h
           \<and> run h (w1\<lparr>trace := trace w1 @ [OnErrorCalled x e]\<rparr>) = (Some e', w')"
    by blast
qed

theorem task_errors_stay_in_drain_witness:
  "fst (flushTaskQueue (queueTask (rethrower 1 (UserError 7) (UserError 8))
         (queueMicroTask (rethrower 2 (UserError 5) (UserError 6)) (newTaskQueue True))))
     = Some (UserError 8)
   \<and> None \<notin> set (microTaskQueue (queueTask (rethrower 1 (UserError 7) (UserError 8))
         (queueMicroTask (rethrower 2 (UserError 5) (UserError 6)) (newTaskQueue True))))
   \<and> map_option fst (flushMicroTaskQueue (queueTask (rethrower 1 (UserError 7) (UserError 8))
         (queueMicroTask (rethrower 2 (UserError 5) (UserError 6)) (newTaskQueue True))))
     = Some (Some (UserError 6))
   \<and> (\<exists>x h e w1. throws x \<and> onErrorHandler x = Some h \<and> list_ex isThrow h
        \<and> flushTaskQueue (queueTask (rethrower 1 (UserError 7) (UserError 8))
             (queueMicroTask (rethrower 2 (UserError 5) (UserError 6)) (newTaskQueue True)))
           = run h (w1\<lparr>trace := trace w1 @ [OnErrorCalled x e]\<rparr>))
   \<and> (\<exists>x h e w1. throws x \<and> onErrorHandler x = Some h \<and> list_ex isThrow h
        \<and> fst (run h (w1\<lparr>trace := trace w1 @ [OnErrorCalled x e]\<rparr>)) = Some (UserError 6))"
proof -
  let ?W = "queueTask (rethrower 1 (UserError 7) (UserError 8))
         (queueMicroTask (rethrower 2 (UserError 5) (UserError 6)) (newTaskQueue True))"
  have m: "fst (flushTaskQueue ?W) = Some (UserError 8)"
    unfolding flushTaskQueue_def
    by (subst macroLoop.simps) (simp add: call_def onError_def rethrower_def newTaskQueue_def Let_def)
  have nh: "None \<notin> set (microTaskQueue ?W)"
    by (simp add: newTaskQueue_def)
  obtain w' where u: "flushMicroTaskQueue ?W = Some (Some (UserError 6), w')"
    unfolding flushMicroTaskQueue_def
    by (subst (asm) microLoop.simps) (simp add: call_def onError_def rethrower_def newTaskQueue_def)
  from task_errors_stay_in_drain [of "noop 0" ?W] m nh u show ?thesis
    by (auto simp add: prod_eq_iff; blast)
qed

text \<open>
  C7. When the loop of a macro drain, or of a micro drain, ends in the \<^verbatim>\<open>catch\<close> clause
  with error \<open>e\<close> thrown by task \<open>t\<close>: if \<open>t\<close> has an \<^verbatim>\<open>onError\<close> handler, the handler is called
  with \<open>e\<close> inside the drain; otherwise the drain returns normally and has scheduled the
  closure that rethrows \<open>e\<close>, with \<^verbatim>\<open>setImmediate\<close> when the host has it and with a
  zero-delay \<^verbatim>\<open>setTimeout\<close> otherwise. The error is rethrown only when the host runs that
  closure.
\<close>

theorem onError_routing:
  assumes "macroLoop (taskQueue w) 0 (w\<lparr>trace := trace w @ [FlushStarted Macro], taskQueue := []\<rparr>)
             = Caught e (Some t) w1"
    and "microLoop (microTaskQueueCapacity v) 0 (v\<lparr>trace := trace v @ [FlushStarted Micro]\<rparr>)
           = Some (Caught e' (Some t') v1)"
  shows "flushTaskQueue w =
        (case onErrorHandler t of
           Some h \<Rightarrow> run h (w1\<lparr>trace := trace w1 @ [OnErrorCalled t e]\<rparr>)
         | None \<Rightarrow>
             (None, if hasSetImmediate w1
                    then w1\<lparr>immediates := immediates w1 @ [Rethrow e]\<rparr>
                    else w1\<lparr>timers := timers w1 @ [Timer (nextHandle w1) OneShot 0 (Rethrow e)],
                            nextHandle := nextHandle w1 + 1\<rparr>))
    \<and> flushMicroTaskQueue v =
        Some (case onErrorHandler t' of
           Some h \<Rightarrow>
             (case run h (v1\<lparr>trace := trace v1 @ [OnErrorCalled t' e']\<rparr>) of
                (None, v2) \<Rightarrow> (None, v2\<lparr>microTaskQueue := []\<rparr>)
              | (Some x, v2) \<Rightarrow> (Some x, v2))
         | None \<Rightarrow>
             (None, if hasSetImmediate v1
                    then v1\<lparr>immediates := immediates v1 @ [Rethrow e'], microTaskQueue := []\<rparr>
                    else v1\<lparr>timers := timers v1 @ [Timer (nextHandle v1) OneShot 0 (Rethrow e')],
                            nextHandle := nextHandle v1 + 1, microTaskQueue := []\<rparr>))
    \<and> runCallback (Rethrow e) u = (Some e, u) \<and> runCallback (Rethrow e') u = (Some e', u)"
proof -
  have m: "flushTaskQueue w = onError e (Some t) w1"
    using assms(1) by (simp add: flushTaskQueue_def)
  have u: "flushMicroTaskQueue v =
      (case onError e' (Some t') v1 of
                (Some x, v2) \<Rightarrow> Some (Some x, v2)
              | (None, v2) \<Rightarrow> Some (None, v2\<lparr>microTaskQueue := []\<rparr>))"
    using assms(2) by (simp add: flushMicroTaskQueue_def)
  have "flushTaskQueue w =
        (case onErrorHandler t of
           Some h \<Rightarrow> run h (w1\<lparr>trace := trace w1 @ [OnErrorCalled t e]\<rparr>)
         | None \<Rightarrow>
             (None, if hasSetImmediate w1
                    then w1\<lparr>immediates := immediates w1 @ [Rethrow e]\<rparr>
                    else w1\<lparr>timers := timers w1 @ [Timer (nextHandle w1) OneShot 0 (Rethrow e)],
                            nextHandle := nextHandle w1 + 1\<rparr>))"
    unfolding m by (simp add: onError_def setImmediate_def setTimeout_def split: option.splits)
  moreover have "flushMicroTaskQueue v =
        Some (case onErrorHandler t' of
           Some h \<Rightarrow>
             (case run h (v1\<lparr>trace := trace v1 @ [OnErrorCalled t' e']\<rparr>) of
                (None, v2) \<Rightarrow> (None, v2\<lparr>microTaskQueue := []\<rparr>)
              | (Some x, v2) \<Rightarrow> (Some x, v2))
         | None \<Rightarrow>
             (None, if hasSetImmediate v1
                    then v1\<lparr>immediates := immediates v1 @ [Rethrow e'], microTaskQueue := []\<rparr>
                    else v1\<lparr>timers := timers v1 @ [Timer (nextHandle v1) OneShot 0 (Rethrow e')],
                            nextHandle := nextHandle v1 + 1, microTaskQueue := []\<rparr>))"
    unfolding u
    by (simp add: onError_def setImmediate_def setTimeout_def split: option.splits prod.splits)
  ultimately show ?thesis
    by (simp add: runCallback_def)
qed

theorem onError_routing_witness:
  "flushTaskQueue (queueTask (thrower 1 (UserError 7)) (newTaskQueue False)) =
     (None, (queueTask (thrower 1 (UserError 7)) (newTaskQueue False))
        \<lparr>taskQueue := [],
         timers := timers (queueTask (thrower 1 (UserError 7)) (newTaskQueue False))
                     @ [Timer 3 OneShot 0 (Rethrow (UserError 7))],
         nextHandle := 4,
         trace := trace (queueTask (thrower 1 (UserError 7)) (newTaskQueue False))
                     @ [FlushStarted Macro, Called (thrower 1 (UserError 7))]\<rparr>)
   \<and> flushMicroTaskQueue (queueMicroTask (thrower 2 (UserError 9)) (newTaskQueue True)) =
     Some (None, (queueMicroTask (thrower 2 (UserError 9)) (newTaskQueue True))
        \<lparr>microTaskQueue := [],
         immediates := [Rethrow (UserError 9)],
         trace := trace (queueMicroTask (thrower 2 (UserError 9)) (newTaskQueue True))
                     @ [FlushStarted Micro, Called (thrower 2 (UserError 9))]\<rparr>)"
proof -
  let ?W = "queueTask (thrower 1 (UserError 7)) (newTaskQueue False)"
  let ?V = "queueMicroTask (thrower 2 (UserError 9)) (newTaskQueue True)"
  let ?W1 = "?W\<lparr>trace := trace ?W @ [FlushStarted Macro, Called (thrower 1 (UserError 7))],
               taskQueue := []\<rparr>"
  let ?V1 = "?V\<lparr>trace := trace ?V @ [FlushStarted Micro, Called (thrower 2 (UserError 9))]\<rparr>"
  have a: "macroLoop (taskQueue ?W) 0 (?W\<lparr>trace := trace ?W @ [FlushStarted Macro], taskQueue := []\<rparr>)
             = Caught (UserError 7) (Some (thrower 1 (UserError 7))) ?W1"
    by (subst macroLoop.simps) (simp add: call_def thrower_def newTaskQueue_def Let_def)
  have c: "microLoop (microTaskQueueCapacity ?V) 0 (?V\<lparr>trace := trace ?V @ [FlushStarted Micro]\<rparr>)
           = Some (Caught (UserError 9) (Some (thrower 2 (UserError 9))) ?V1)"
    by (subst microLoop.simps) (simp add: call_def thrower_def newTaskQueue_def)
  from onError_routing [OF a c, where u = ?W] show ?thesis
    by (simp add: thrower_def newTaskQueue_def)
qed

text \<open>
  C9 (timer race). One call of the timer-based \<^verbatim>\<open>requestFlush\<close>, in a world whose active
  timers all have handles the host has already handed out, starts a zero-delay one-shot
  timer and a 50ms repeating timer. Whatever the queue holds by then, and in whatever order
  and however often the host tries to fire the two handles (at least once), the macro
  drain is entered exactly once and afterwards neither handle is active.
\<close>

theorem timer_race_single_flush:
  assumes "\<forall>t\<in>set (timers w). handle t < nextHandle w"
    and "set hs \<subseteq> {nextHandle w, nextHandle w + 1}" and "hs \<noteq> []"
  shows "timers ((requestFlushTaskQueue w)\<lparr>taskQueue := q\<rparr>) =
           timers w @ [Timer (nextHandle w) OneShot 0 (HandleFlushTimer (nextHandle w) (nextHandle w + 1)),
                       Timer (nextHandle w + 1) Repeating 50 (HandleFlushTimer (nextHandle w) (nextHandle w + 1))]
    \<and> count_list (trace (fireAll hs ((requestFlushTaskQueue w)\<lparr>taskQueue := q\<rparr>))) (FlushStarted Macro)
        = count_list (trace w) (FlushStarted Macro) + 1
    \<and> find (\<lambda>t. handle t = nextHandle w)
         (timers (fireAll hs ((requestFlushTaskQueue w)\<lparr>taskQueue := q\<rparr>))) = None
    \<and> find (\<lambda>t. handle t = nextHandle w + 1)
         (timers (fireAll hs ((requestFlushTaskQueue w)\<lparr>taskQueue := q\<rparr>))) = None"
proof -
  obtain h hs' where hs: "hs = h # hs'" using assms(3) by (cases hs) auto
  then have h: "h = nextHandle w \<or> h = nextHandle w + 1"
    and hs': "set hs' \<subseteq> {nextHandle w, nextHandle w + 1}"
    using assms(2) by auto
  let ?v = "(requestFlushTaskQueue w)\<lparr>taskQueue := q\<rparr>"
  let ?n = "count_list (trace w) (FlushStarted Macro) + 1"
  from first_fire [OF assms(1) h, of q] obtain r w' where
    f: "fireTimer h ?v = Some (r, w')" and s: "spent (nextHandle w) ?n w'" "spent (nextHandle w + 1) ?n w'"
    by blast
  have "fireAll hs ?v = fireAll hs' w'" using f hs by simp
  also have "\<dots> = w'" using s hs' by (rule fireAll_spent)
  finally have "fireAll hs ?v = w'" .
  moreover have "timers ?v =
           timers w @ [Timer (nextHandle w) OneShot 0 (HandleFlushTimer (nextHandle w) (nextHandle w + 1)),
                       Timer (nextHandle w + 1) Repeating 50 (HandleFlushTimer (nextHandle w) (nextHandle w + 1))]"
    by (simp add: requestFlushTaskQueue_fields)
  ultimately show ?thesis using s by (simp add: spent_def)
qed

theorem timer_race_single_flush_witness:
  "count_list (trace (fireAll [2, 1, 2] (queueTask (noop 7) (newTaskQueue True)))) (FlushStarted Macro) = 1
   \<and> count_list (trace (fireAll [1, 2, 2, 1] (queueTask (noop 7) (newTaskQueue True)))) (FlushStarted Macro) = 1
   \<and> timers (fireAll [2, 1, 2] (queueTask (noop 7) (newTaskQueue True))) = []"
proof -
  let ?w = "(newTaskQueue True)\<lparr>trace := [Enqueued Macro (noop 7)]\<rparr>"
  have q: "queueTask (noop 7) (newTaskQueue True) = (requestFlushTaskQueue ?w)\<lparr>taskQueue := [noop 7]\<rparr>"
    by (simp add: queueTask_def requestFlushTaskQueue_def setTimeout_def setInterval_def
        newTaskQueue_def Let_def)
  have a: "\<forall>t\<in>set (timers ?w). handle t < nextHandle ?w"
    by (simp add: newTaskQueue_def)
  have n: "nextHandle ?w = 1" by (simp add: newTaskQueue_def)
  have b: "set [2, 1, 2] \<subseteq> {nextHandle ?w, nextHandle ?w + 1}" "[2, 1, 2::nat] \<noteq> []"
    "set [1, 2, 2, 1] \<subseteq> {nextHandle ?w, nextHandle ?w + 1}" "[1, 2, 2, 1::nat] \<noteq> []"
    unfolding n by simp_all
  have t: "timers (fireAll [2, 1, 2] (queueTask (noop 7) (newTaskQueue True))) = []"
    by (simp add: fireTimer_def runCallback_def flushTaskQueue_def macroLoop.simps [of _ 0]
        macroLoop.simps [of _ "Suc 0"] call_def noop_def clearTimeout_def clearInterval_def
        queueTask_def requestFlushTaskQueue_def setTimeout_def setInterval_def newTaskQueue_def Let_def)
  from timer_race_single_flush [OF a b(1,2), of "[noop 7]"]
    timer_race_single_flush [OF a b(3,4), of "[noop 7]"] t
  show ?thesis unfolding q [symmetric] by (simp add: newTaskQueue_def)
qed

end
